theory Spec2Isabelle
  imports Complex_Main "HOL-Library.Word" "HOL-Library.Log_Nat"
begin

section \<open>Python values and exceptions\<close>

text \<open>
  The exceptions the pipeline of \<^verbatim>\<open>image_processor.py\<close> can meet.  Every function that
  can raise returns a sum: \<open>Inl\<close> is the exception, \<open>Inr\<close> the value.
\<close>

datatype py_error =
    ZeroDivisionError
  | ValueError
  | IndexError
  | LinAlgError
  | FileNotFoundError
  | UnidentifiedImageError

subsection \<open>Floating point: IEEE 754 binary64, round to nearest, ties to even\<close>

text \<open>
  Python's \<^verbatim>\<open>float\<close> and NumPy's \<^verbatim>\<open>float64\<close> are binary64.  A float is modelled by the
  rational number it denotes; \<open>fl\<close> rounds a rational to the nearest number with a
  53-bit significand, ties to even.  The exponent is unbounded: overflow and subnormal
  numbers are outside the model (image sizes and channel values are far from both).
\<close>

definition pow2 :: "int \<Rightarrow> rat" where
  "pow2 n = (if 0 \<le> n then 2 ^ nat n else 1 / 2 ^ nat (- n))"

definition round_half_even :: "rat \<Rightarrow> int" where
  "round_half_even q =
     (let f = \<lfloor>q\<rfloor>; d = q - of_int f
      in if d < 1 / 2 then f else if 1 / 2 < d then f + 1 else if even f then f else f + 1)"

text \<open>\<open>ilog2 x\<close> is the binary exponent of a positive \<open>x\<close>: \<open>2 ^ e \<le> x < 2 ^ (e + 1)\<close>.\<close>

definition ilog2 :: "rat \<Rightarrow> int" where
  "ilog2 x = (if 1 \<le> x then bitlen \<lfloor>x\<rfloor> - 1 else - bitlen (\<lceil>1 / x\<rceil> - 1))"

definition fl :: "rat \<Rightarrow> rat" where
  "fl x = (if x = 0 then 0
           else let s = ilog2 \<bar>x\<bar> - 52;
                    m = round_half_even (\<bar>x\<bar> / pow2 s)
                in sgn x * of_int m * pow2 s)"

text \<open>\<^verbatim>\<open>a / b\<close> on two Python ints: the correctly rounded quotient, or ZeroDivisionError.\<close>

definition py_truediv :: "int \<Rightarrow> int \<Rightarrow> py_error + rat" where
  "py_truediv a b = (if b = 0 then Inl ZeroDivisionError else Inr (fl (of_int a / of_int b)))"

text \<open>\<^verbatim>\<open>n * x\<close> for an int \<open>n\<close> and a float \<open>x\<close>: the int is converted, the product rounded.\<close>

definition py_int_mul_float :: "int \<Rightarrow> rat \<Rightarrow> rat" where
  "py_int_mul_float n x = fl (fl (of_int n) * x)"

text \<open>\<^verbatim>\<open>int(x)\<close> on a float truncates toward zero.\<close>

definition py_int :: "rat \<Rightarrow> int" where
  "py_int x = (if 0 \<le> x then \<lfloor>x\<rfloor> else \<lceil>x\<rceil>)"

section \<open>Images (PIL) and the operations the script uses\<close>

text \<open>
  An RGB image: its size and its rows of pixels, three 8-bit channels each.  Every
  image PIL hands out satisfies \<open>wf_image\<close>.
\<close>

type_synonym pixel = "8 word \<times> 8 word \<times> 8 word"

record image =
  size_w :: nat
  size_h :: nat
  pixels :: "pixel list list"

definition wf_image :: "image \<Rightarrow> bool" where
  "wf_image im \<longleftrightarrow>
     length (pixels im) = size_h im \<and> list_all (\<lambda>r. length r = size_w im) (pixels im)"

definition mk_image :: "nat \<Rightarrow> nat \<Rightarrow> (nat \<Rightarrow> nat \<Rightarrow> pixel) \<Rightarrow> image" where
  "mk_image w h f =
     \<lparr>size_w = w, size_h = h, pixels = map (\<lambda>y. map (\<lambda>x. f x y) [0..<w]) [0..<h]\<rparr>"

definition getpixel :: "image \<Rightarrow> nat \<Rightarrow> nat \<Rightarrow> pixel" where
  "getpixel im x y = pixels im ! y ! x"

definition white :: pixel where
  "white = (255, 255, 255)"

definition black :: pixel where
  "black = (0, 0, 0)"

definition fluorescent_green :: pixel where
  "fluorescent_green = (57, 255, 20)"

text \<open>An image is pure white when every pixel is \<open>(255, 255, 255)\<close>.\<close>

definition pure_white :: "image \<Rightarrow> bool" where
  "pure_white im \<longleftrightarrow> list_all (list_all (\<lambda>p. p = white)) (pixels im)"

text \<open>\<^verbatim>\<open>Image.new("RGB", (w, h), colour)\<close>\<close>

definition new_image :: "nat \<Rightarrow> nat \<Rightarrow> pixel \<Rightarrow> image" where
  "new_image w h colour = mk_image w h (\<lambda>x y. colour)"

text \<open>
  The library routines whose output the script only passes on are parameters: the two
  resampling filters (\<open>lanczos im w h x y\<close> and \<open>bicubic im coeffs x y\<close> are the colour
  of output pixel \<open>(x, y)\<close>), the linear solver \<^verbatim>\<open>np.linalg.solve\<close>, and the text
  \<^verbatim>\<open>str(e)\<close> of an exception.  Sizes, failures and data flow are modelled in full.
\<close>

record backend =
  lanczos :: "image \<Rightarrow> nat \<Rightarrow> nat \<Rightarrow> nat \<Rightarrow> nat \<Rightarrow> pixel"
  bicubic :: "image \<Rightarrow> rat list \<Rightarrow> nat \<Rightarrow> nat \<Rightarrow> pixel"
  solve :: "rat list list \<Rightarrow> rat list \<Rightarrow> py_error + rat list"
  exc_str :: "py_error \<Rightarrow> string"

text \<open>
  \<^verbatim>\<open>img.resize((w, h), Image.LANCZOS)\<close>: PIL raises ValueError
  (\<^verbatim>\<open>height and width must be > 0\<close>) on a size below 1, and otherwise returns an image
  of exactly the requested size.
\<close>

definition resize :: "backend \<Rightarrow> image \<Rightarrow> int \<Rightarrow> int \<Rightarrow> py_error + image" where
  "resize B im w h =
     (if w < 1 \<or> h < 1 then Inl ValueError
      else Inr (mk_image (nat w) (nat h) (lanczos B im (nat w) (nat h))))"

text \<open>
  \<^verbatim>\<open>img.crop((left, top, right, bottom))\<close>: the result has size
  \<open>(right - left, bottom - top)\<close>; the part of the box outside the image is black.
\<close>

definition crop :: "image \<Rightarrow> int \<Rightarrow> int \<Rightarrow> int \<Rightarrow> int \<Rightarrow> py_error + image" where
  "crop im left top' right bottom =
     (if right < left \<or> bottom < top' then Inl ValueError
      else Inr (mk_image (nat (right - left)) (nat (bottom - top'))
             (\<lambda>x y. let sx = left + int x; sy = top' + int y
                    in if 0 \<le> sx \<and> sx < int (size_w im) \<and> 0 \<le> sy \<and> sy < int (size_h im)
                       then getpixel im (nat sx) (nat sy) else black)))"

text \<open>
  \<^verbatim>\<open>canvas.paste(im, (x0, y0))\<close>: the pixels of the canvas under the pasted image are
  replaced, clipped to the canvas.  Python mutates the canvas; the model returns it.
\<close>

definition paste :: "image \<Rightarrow> image \<Rightarrow> int \<Rightarrow> int \<Rightarrow> image" where
  "paste canvas im x0 y0 =
     mk_image (size_w canvas) (size_h canvas)
       (\<lambda>x y. if x0 \<le> int x \<and> int x < x0 + int (size_w im) \<and>
                 y0 \<le> int y \<and> int y < y0 + int (size_h im)
              then getpixel im (nat (int x - x0)) (nat (int y - y0))
              else getpixel canvas x y)"

section \<open>Utility functions of the script\<close>

subsection \<open>\<^verbatim>\<open>resize_cover\<close>\<close>

definition resize_cover :: "backend \<Rightarrow> image \<Rightarrow> int \<Rightarrow> int \<Rightarrow> py_error + image" where
  "resize_cover B img target_w target_h =
     (let ow = int (size_w img); oh = int (size_h img)
      in case py_truediv target_w ow of Inl e \<Rightarrow> Inl e | Inr scale_w \<Rightarrow>
         (case py_truediv target_h oh of Inl e \<Rightarrow> Inl e | Inr scale_h \<Rightarrow>
           (let scale = max scale_w scale_h;
                new_w = py_int (py_int_mul_float ow scale);
                new_h = py_int (py_int_mul_float oh scale)
            in case resize B img new_w new_h of Inl e \<Rightarrow> Inl e | Inr img_copy \<Rightarrow>
               (let left = (new_w - target_w) div 2;
                    top' = (new_h - target_h) div 2;
                    right = left + target_w;
                    bottom = top' + target_h
                in crop img_copy left top' right bottom))))"

subsection \<open>\<^verbatim>\<open>apply_multiply_blend\<close>\<close>

text \<open>
  One channel: both values are divided by 255.0, multiplied, multiplied by 255 and
  cast to \<^verbatim>\<open>uint8\<close> (truncation; the value lies in \<open>[0, 255]\<close>).
\<close>

definition blend_value :: "nat \<Rightarrow> nat \<Rightarrow> int" where
  "blend_value a b = py_int (fl (fl (fl (of_nat a / 255) * fl (of_nat b / 255)) * 255))"

definition blend_channel :: "8 word \<Rightarrow> 8 word \<Rightarrow> 8 word" where
  "blend_channel a b = word_of_int (blend_value (unat a) (unat b))"

definition blend_pixel :: "pixel \<Rightarrow> pixel \<Rightarrow> pixel" where
  "blend_pixel p q =
     (case p of (r1, g1, b1) \<Rightarrow> case q of (r2, g2, b2) \<Rightarrow>
        (blend_channel r1 r2, blend_channel g1 g2, blend_channel b1 b2))"

text \<open>NumPy broadcasting of one axis: equal lengths, or one of them 1.\<close>

definition broadcast_dim :: "nat \<Rightarrow> nat \<Rightarrow> nat option" where
  "broadcast_dim n m =
     (if n = m then Some n else if n = 1 then Some m else if m = 1 then Some n else None)"

definition apply_multiply_blend :: "image \<Rightarrow> image \<Rightarrow> py_error + image" where
  "apply_multiply_blend base_img overlay_img =
     (case broadcast_dim (size_h base_img) (size_h overlay_img) of None \<Rightarrow> Inl ValueError
      | Some h \<Rightarrow>
     (case broadcast_dim (size_w base_img) (size_w overlay_img) of None \<Rightarrow> Inl ValueError
      | Some w \<Rightarrow>
        Inr (mk_image w h
          (\<lambda>x y. blend_pixel
             (getpixel base_img (if size_w base_img = 1 then 0 else x)
                                (if size_h base_img = 1 then 0 else y))
             (getpixel overlay_img (if size_w overlay_img = 1 then 0 else x)
                                   (if size_h overlay_img = 1 then 0 else y))))))"

subsection \<open>\<^verbatim>\<open>find_perspective_coeffs\<close>\<close>

text \<open>The two rows the loop appends for one correspondence \<open>(x, y) \<rightarrow> (X, Y)\<close>.\<close>

definition coeff_rows :: "int \<Rightarrow> int \<Rightarrow> int \<Rightarrow> int \<Rightarrow> int list list" where
  "coeff_rows x y X Y =
     [[x, y, 1, 0, 0, 0, - X * x, - X * y],
      [0, 0, 0, x, y, 1, - Y * x, - Y * y]]"

definition perspective_matrix :: "int list \<Rightarrow> int list \<Rightarrow> int list list" where
  "perspective_matrix source_corners dest_corners =
     concat (map (\<lambda>i. coeff_rows (source_corners ! (2 * i)) (source_corners ! (2 * i + 1))
                                 (dest_corners ! (2 * i)) (dest_corners ! (2 * i + 1)))
                 [0..<4])"

text \<open>
  A corner tuple shorter than 8 raises IndexError in the loop; \<^verbatim>\<open>reshape(8, 1)\<close> raises
  ValueError unless \<^verbatim>\<open>dest_corners\<close> has exactly 8 entries.
\<close>

definition find_perspective_coeffs :: "backend \<Rightarrow> int list \<Rightarrow> int list \<Rightarrow> py_error + rat list" where
  "find_perspective_coeffs B source_corners dest_corners =
     (if length source_corners < 8 \<or> length dest_corners < 8 then Inl IndexError
      else if length dest_corners \<noteq> 8 then Inl ValueError
      else solve B (map (map of_int) (perspective_matrix source_corners dest_corners))
                   (map of_int dest_corners))"

subsection \<open>\<^verbatim>\<open>np.linalg.solve\<close> by its contract, in exact arithmetic\<close>

text \<open>
  NumPy documents \<^verbatim>\<open>solve(a, b)\<close> as the solution of a full-rank square system, raising
  LinAlgError when \<open>a\<close> is singular or not square.  \<open>linalg_solve\<close> is that contract as
  Gaussian elimination with partial pivoting over the rationals: the rounding of the
  LAPACK routine is not modelled.
\<close>

type_synonym equation = "rat list \<times> rat"

definition dot :: "rat list \<Rightarrow> rat list \<Rightarrow> rat" where
  "dot u v = sum_list (map2 (*) u v)"

text \<open>The first equation of largest leading coefficient, and the others.\<close>

fun select_pivot :: "equation \<Rightarrow> equation list \<Rightarrow> equation \<times> equation list" where
  "select_pivot p [] = (p, [])"
| "select_pivot p (r # rs) =
     (if \<bar>hd (fst p)\<bar> < \<bar>hd (fst r)\<bar>
      then (case select_pivot r rs of (q, others) \<Rightarrow> (q, p # others))
      else (case select_pivot p rs of (q, others) \<Rightarrow> (q, r # others)))"

definition eliminate :: "equation \<Rightarrow> equation \<Rightarrow> equation" where
  "eliminate p r =
     (let f = hd (fst r) / hd (fst p)
      in (map2 (\<lambda>a b. a - f * b) (tl (fst r)) (tl (fst p)), snd r - f * snd p))"

fun gauss :: "nat \<Rightarrow> equation list \<Rightarrow> py_error + rat list" where
  "gauss 0 eqs = Inr []"
| "gauss (Suc n) eqs =
     (case eqs of [] \<Rightarrow> Inl LinAlgError
      | r # rs \<Rightarrow>
        (case select_pivot r rs of (p, others) \<Rightarrow>
           if hd (fst p) = 0 then Inl LinAlgError
           else (case gauss n (map (eliminate p) others) of Inl e \<Rightarrow> Inl e
                 | Inr xs \<Rightarrow> Inr ((snd p - dot (tl (fst p)) xs) / hd (fst p) # xs))))"

definition linalg_solve :: "rat list list \<Rightarrow> rat list \<Rightarrow> py_error + rat list" where
  "linalg_solve a b =
     (if \<not> list_all (\<lambda>r. length r = length a) a then Inl LinAlgError
      else if length b \<noteq> length a then Inl ValueError
      else gauss (length a) (zip a b))"

text \<open>A square matrix is singular when some non-zero vector is mapped to zero.\<close>

definition singular :: "rat list list \<Rightarrow> bool" where
  "singular a \<longleftrightarrow>
     (\<exists>v. length v = length a \<and> v \<noteq> replicate (length a) 0 \<and> (\<forall>r \<in> set a. dot r v = 0))"

subsection \<open>\<^verbatim>\<open>apply_perspective_transform\<close>\<close>

text \<open>
  Only LinAlgError is caught (the function then returns \<^verbatim>\<open>None\<close>); any other exception
  propagates.  \<^verbatim>\<open>img.transform((w, h), ...)\<close> returns an image of exactly that size.
\<close>

definition apply_perspective_transform ::
    "backend \<Rightarrow> image \<Rightarrow> nat \<Rightarrow> nat \<Rightarrow> int list \<Rightarrow> py_error + image option" where
  "apply_perspective_transform B img target_w target_h dest_corners =
     (let ow = int (size_w img); oh = int (size_h img);
          source_corners = [0, 0, ow, 0, ow, oh, 0, oh]
      in case find_perspective_coeffs B source_corners dest_corners of
           Inl e \<Rightarrow> (if e = LinAlgError then Inr None else Inl e)
         | Inr coeffs \<Rightarrow> Inr (Some (mk_image target_w target_h (bicubic B img coeffs))))"

section \<open>Files\<close>

text \<open>
  A file holds an image or something else; the file system maps paths to files.
  Writing and removing always succeed in the model (no permissions, no full disk), and
  a path names a file by its spelling (no links).
\<close>

datatype file_content = ImageFile image | OtherFile

type_synonym filesystem = "string \<Rightarrow> file_content option"

text \<open>\<^verbatim>\<open>os.path.join(a, b)\<close> (POSIX).\<close>

definition path_join :: "string \<Rightarrow> string \<Rightarrow> string" where
  "path_join a b =
     (if b \<noteq> [] \<and> hd b = CHR ''/'' then b
      else if a = [] \<or> last a = CHR ''/'' then a @ b
      else a @ ''/'' @ b)"

text \<open>\<^verbatim>\<open>Image.open(path).convert("RGB")\<close>\<close>

definition image_open :: "filesystem \<Rightarrow> string \<Rightarrow> py_error + image" where
  "image_open fs path =
     (case fs path of None \<Rightarrow> Inl FileNotFoundError
      | Some OtherFile \<Rightarrow> Inl UnidentifiedImageError
      | Some (ImageFile im) \<Rightarrow> Inr im)"

text \<open>\<^verbatim>\<open>img.save(path, "PNG")\<close>: PNG is lossless, the file holds the image.\<close>

definition image_save :: "filesystem \<Rightarrow> string \<Rightarrow> image \<Rightarrow> filesystem" where
  "image_save fs path im = fs(path \<mapsto> ImageFile im)"

definition delete_file :: "filesystem \<Rightarrow> string \<Rightarrow> filesystem" where
  "delete_file fs filepath = (if fs filepath \<noteq> None then fs(filepath := None) else fs)"

section \<open>Task 1: \<^verbatim>\<open>create_bordered_image\<close>\<close>

definition create_bordered_image ::
    "backend \<Rightarrow> image \<Rightarrow> string \<Rightarrow> filesystem \<Rightarrow> py_error + filesystem" where
  "create_bordered_image B fg_img input_folder fs =
     (let bordered_output_path = path_join input_folder ''print.png'';
          output_path = path_join input_folder ''output.png'';
          canvas_w = 3900; canvas_h = 5700;
          canvas = new_image (nat canvas_w) (nat canvas_h) white;
          box1_w = 3660; box1_h = 5460;
          box1 = new_image (nat box1_w) (nat box1_h) fluorescent_green;
          box1_x = (canvas_w - box1_w) div 2;
          box1_y = (canvas_h - box1_h) div 2;
          canvas = paste canvas box1 box1_x box1_y;
          box2_w = 3567; box2_h = 5374
      in case resize_cover B fg_img box2_w box2_h of Inl e \<Rightarrow> Inl e
         | Inr img_final \<Rightarrow>
           (let box2_x = (canvas_w - box2_w) div 2;
                box2_y = (canvas_h - box2_h) div 2;
                canvas = paste canvas img_final box2_x box2_y;
                fs = image_save fs output_path img_final;
                fs = image_save fs bordered_output_path canvas
            in Inr fs))"

section \<open>Task 2: \<^verbatim>\<open>create_multiplied_image\<close>\<close>

text \<open>
  The result is the exception or the returned flag, and the file system afterwards
  (an exception leaves the files written so far).
\<close>

definition create_multiplied_image ::
    "backend \<Rightarrow> image \<Rightarrow> string \<Rightarrow> string \<Rightarrow> int list \<Rightarrow> bool \<Rightarrow> filesystem
       \<Rightarrow> (py_error + bool) \<times> filesystem" where
  "create_multiplied_image B fg_img show_image_path output_path dest_corners resize_flag fs =
     (case (if \<not> resize_flag then resize B fg_img 1071 1500 else resize B fg_img 393 654) of
        Inl e \<Rightarrow> (Inl e, fs)
      | Inr fg_img \<Rightarrow>
     (case image_open fs show_image_path of Inl e \<Rightarrow> (Inl e, fs)
      | Inr base_img \<Rightarrow>
       (let base_w = size_w base_img; base_h = size_h base_img;
            target_w = base_w; target_h = base_h
        in case apply_perspective_transform B fg_img target_w target_h dest_corners of
             Inl e \<Rightarrow> (Inl e, fs)
           | Inr None \<Rightarrow> (Inr False, fs)
           | Inr (Some fg_perspectived) \<Rightarrow>
             (let overlay_canvas = new_image base_w base_h white;
                  overlay_canvas = paste overlay_canvas fg_perspectived 0 0
              in case apply_multiply_blend base_img overlay_canvas of Inl e \<Rightarrow> (Inl e, fs)
                 | Inr final_image \<Rightarrow> (Inr True, image_save fs output_path final_image)))))"

section \<open>The main processing function\<close>

definition DEST_COORDINATES :: "int list" where
  "DEST_COORDINATES = [-322, -320, 650, -320, 670, 975, -370, 985]"

definition DEST_COORDINATES2 :: "int list" where
  "DEST_COORDINATES2 = [-196, -115, 165, -178, 170, 498, -195, 519]"

definition DEST_COORDINATES3 :: "int list" where
  "DEST_COORDINATES3 = [-415, -529, 695, -519, 718, 955, -495, 960]"

text \<open>
  The result of \<^verbatim>\<open>process_image\<close> is the exception that escapes it or the returned tuple
  \<open>(success, output_files, error_message)\<close>, and the file system afterwards.
\<close>

definition process_image ::
    "backend \<Rightarrow> string \<Rightarrow> string \<Rightarrow> string \<Rightarrow> filesystem
       \<Rightarrow> (py_error + bool \<times> string list \<times> string) \<times> filesystem" where
  "process_image B input_path output_folder script_dir fs =
     (let show_image_path = path_join script_dir ''show.png'';
          show_image_path2 = path_join script_dir ''show2.jpg'';
          show_image_path3 = path_join script_dir ''show3.png''
      in case find (\<lambda>template_path. fs template_path = None)
                [show_image_path, show_image_path2, show_image_path3] of
           Some template_path \<Rightarrow>
             (Inr (False, [], ''Missing template file: '' @ template_path), fs)
         | None \<Rightarrow>
      (case image_open fs input_path of
           Inl e \<Rightarrow> (Inr (False, [], ''Error opening image: '' @ exc_str B e), fs)
         | Inr fg_img \<Rightarrow>
      (case create_bordered_image B fg_img output_folder fs of Inl e \<Rightarrow> (Inl e, fs)
         | Inr fs \<Rightarrow>
       (let output_png_path = path_join output_folder ''output.png''
        in if fs output_png_path = None
           then (Inr (False, [], ''Missing intermediate file: '' @ output_png_path), fs)
           else
      (case image_open fs output_png_path of Inl e \<Rightarrow> (Inl e, fs)
         | Inr centered_artwork \<Rightarrow>
       (let output_files = [];
            multiplied_output_path = path_join output_folder ''show.png''
        in case create_multiplied_image B centered_artwork show_image_path
                  multiplied_output_path DEST_COORDINATES False fs of
             (Inl e, fs) \<Rightarrow> (Inl e, fs)
           | (Inr ok, fs) \<Rightarrow>
       (let output_files = (if ok then output_files @ [multiplied_output_path] else output_files);
            multiplied_output_path = path_join output_folder ''show2.png''
        in case create_multiplied_image B centered_artwork show_image_path2
                  multiplied_output_path DEST_COORDINATES2 True fs of
             (Inl e, fs) \<Rightarrow> (Inl e, fs)
           | (Inr ok, fs) \<Rightarrow>
       (let output_files = (if ok then output_files @ [multiplied_output_path] else output_files);
            multiplied_output_path = path_join output_folder ''show3.png''
        in case create_multiplied_image B centered_artwork show_image_path3
                  multiplied_output_path DEST_COORDINATES3 False fs of
             (Inl e, fs) \<Rightarrow> (Inl e, fs)
           | (Inr ok, fs) \<Rightarrow>
       (let output_files = (if ok then output_files @ [multiplied_output_path] else output_files);
            fs = delete_file fs output_png_path
        in if length output_files > 0 then (Inr (True, output_files, []), fs)
           else (Inr (False, [], ''Failed to create any output images''), fs))))))))))"

section \<open>Sample values\<close>

definition sample_image :: image where
  "sample_image = \<lparr>size_w = 2, size_h = 1, pixels = [[(17, 200, 0), (255, 1, 128)]]\<rparr>"

section \<open>Degenerate corner sets\<close>

text \<open>
  The \<open>i\<close>-th point of a corner tuple, and collinearity of three points (a repeated
  point is collinear with any third).  A corner set is degenerate when some three of
  its four points are collinear.
\<close>

definition corner :: "int list \<Rightarrow> nat \<Rightarrow> int \<times> int" where
  "corner d i = (d ! (2 * i), d ! (2 * i + 1))"

definition collinear :: "int \<times> int \<Rightarrow> int \<times> int \<Rightarrow> int \<times> int \<Rightarrow> bool" where
  "collinear P Q R \<longleftrightarrow>
     (fst Q - fst P) * (snd R - snd P) - (fst R - fst P) * (snd Q - snd P) = 0"


text \<open>A backend whose solver is the exact one and whose filters return one flat colour.\<close>

definition exact_backend :: backend where
  "exact_backend =
     \<lparr>lanczos = (\<lambda>im w h x y. getpixel im 0 0),
      bicubic = (\<lambda>im coeffs x y. getpixel im 0 0),
      solve = linalg_solve,
      exc_str = (\<lambda>e. [])\<rparr>"

section \<open>The composite without the intermediate canvas\<close>

text \<open>
  \<^verbatim>\<open>create_multiplied_image\<close> with the white canvas and the paste removed: the warped
  foreground is blended onto the template directly.
\<close>

definition create_multiplied_image_direct ::
    "backend \<Rightarrow> image \<Rightarrow> string \<Rightarrow> string \<Rightarrow> int list \<Rightarrow> bool \<Rightarrow> filesystem
       \<Rightarrow> (py_error + bool) \<times> filesystem" where
  "create_multiplied_image_direct B fg_img show_image_path output_path dest_corners resize_flag fs =
     (case (if \<not> resize_flag then resize B fg_img 1071 1500 else resize B fg_img 393 654) of
        Inl e \<Rightarrow> (Inl e, fs)
      | Inr fg_img \<Rightarrow>
     (case image_open fs show_image_path of Inl e \<Rightarrow> (Inl e, fs)
      | Inr base_img \<Rightarrow>
       (case apply_perspective_transform B fg_img (size_w base_img) (size_h base_img)
               dest_corners of
          Inl e \<Rightarrow> (Inl e, fs)
        | Inr None \<Rightarrow> (Inr False, fs)
        | Inr (Some fg_perspectived) \<Rightarrow>
            (case apply_multiply_blend base_img fg_perspectived of Inl e \<Rightarrow> (Inl e, fs)
             | Inr final_image \<Rightarrow> (Inr True, image_save fs output_path final_image)))))"

text \<open>A file system holding one white template of one pixel.\<close>

definition one_template :: filesystem where
  "one_template = Map.empty(''show.png'' \<mapsto> ImageFile (new_image 1 1 white))"


text \<open>A file system where only the first template exists.\<close>

definition first_template_only :: filesystem where
  "first_template_only = Map.empty(''tpl/show.png'' \<mapsto> OtherFile)"



section \<open>Facts about the floating-point model\<close>

lemma floor_rat_numeral_div:
  "\<lfloor>numeral a / numeral b :: rat\<rfloor> = numeral a div numeral b"
  using floor_divide_of_int_eq [of "numeral a" "numeral b", where ?'a = rat] by simp

lemma ceiling_rat_numeral_div:
  "\<lceil>numeral a / numeral b :: rat\<rceil> = - (- numeral a div numeral b)"
  using floor_divide_of_int_eq [of "- numeral a" "numeral b", where ?'a = rat]
  by (simp add: ceiling_def)

lemma bitlen_pos_step: "0 < x \<Longrightarrow> bitlen x = bitlen (x div 2) + 1"
  by (subst compute_bitlen) simp

lemmas fl_eval = fl_def ilog2_def pow2_def round_half_even_def Let_def
  floor_rat_numeral_div ceiling_rat_numeral_div bitlen_pos_step

lemma size_mk_image [simp]:
  "size_w (mk_image w h f) = w" "size_h (mk_image w h f) = h"
  by (simp_all add: mk_image_def)

lemma size_new_image [simp]:
  "size_w (new_image w h c) = w" "size_h (new_image w h c) = h"
  by (simp_all add: new_image_def)

lemma wf_mk_image [simp]: "wf_image (mk_image w h f)"
  by (simp add: wf_image_def mk_image_def list_all_iff)

lemma getpixel_mk_image [simp]:
  "x < w \<Longrightarrow> y < h \<Longrightarrow> getpixel (mk_image w h f) x y = f x y"
  by (simp add: getpixel_def mk_image_def)

lemma getpixel_new_image [simp]:
  "x < w \<Longrightarrow> y < h \<Longrightarrow> getpixel (new_image w h c) x y = c"
  by (simp add: new_image_def)

lemma mk_image_cong:
  "(\<And>x y. x < w \<Longrightarrow> y < h \<Longrightarrow> f x y = g x y) \<Longrightarrow> mk_image w h f = mk_image w h g"
  by (simp add: mk_image_def)

lemma mk_image_getpixel:
  assumes "wf_image im"
  shows "mk_image (size_w im) (size_h im) (getpixel im) = im"
proof -
  have len: "length (pixels im) = size_h im"
    and row: "\<And>y. y < size_h im \<Longrightarrow> length (pixels im ! y) = size_w im"
    using assms by (auto simp: wf_image_def list_all_length)
  have "map (\<lambda>y. map (\<lambda>x. pixels im ! y ! x) [0..<size_w im]) [0..<size_h im] = pixels im"
  proof (rule nth_equalityI)
    show "length (map (\<lambda>y. map (\<lambda>x. pixels im ! y ! x) [0..<size_w im]) [0..<size_h im])
            = length (pixels im)"
      by (simp add: len)
  next
    fix y assume "y < length (map (\<lambda>y. map (\<lambda>x. pixels im ! y ! x) [0..<size_w im]) [0..<size_h im])"
    then have y: "y < size_h im" by simp
    have "map (\<lambda>x. pixels im ! y ! x) [0..<size_w im] = pixels im ! y"
      using row [OF y] map_nth [of "pixels im ! y"] by simp
    with y show "map (\<lambda>y. map (\<lambda>x. pixels im ! y ! x) [0..<size_w im]) [0..<size_h im] ! y
                   = pixels im ! y"
      by simp
  qed
  then show ?thesis
    by (simp add: mk_image_def getpixel_def)
qed

lemma paste_same_size:
  "paste (new_image w h c) (mk_image w h f) 0 0 = mk_image w h f"
  unfolding paste_def by (rule mk_image_cong [THEN trans]) simp_all

subsection \<open>Exhaustive checks over the 256 channel values\<close>

lemma all_less_double:
  "(\<forall>n::nat<numeral (Num.Bit0 k). P n) = (\<forall>m<numeral k. P (2 * m) \<and> P (2 * m + 1))"
  (is "?L = ?R")
proof -
  have eq: "(numeral (Num.Bit0 k) :: nat) = 2 * numeral k"
    by (metis mult_2 numeral_Bit0)
  show ?thesis
  proof
    assume L: ?L
    show ?R
    proof (intro allI impI conjI)
      fix m :: nat assume "m < numeral k"
      then have "2 * m < numeral (Num.Bit0 k)" "2 * m + 1 < numeral (Num.Bit0 k)"
        unfolding eq by arith+
      with L show "P (2 * m)" "P (2 * m + 1)" by blast+
    qed
  next
    assume R: ?R
    show ?L
    proof (intro allI impI)
      fix n :: nat assume n: "n < numeral (Num.Bit0 k)"
      then have "n div 2 < numeral k" unfolding eq by arith
      with R have "P (2 * (n div 2))" "P (2 * (n div 2) + 1)" by blast+
      then show "P n" by (cases "even n") (auto elim!: evenE oddE)
    qed
  qed
qed

lemma all_less_one: "(\<forall>m<(1::nat). P m) = P 0"
  by simp

lemma blend_value_white_0: "\<forall>m<32. blend_value (8 * m) 255 = int (8 * m)"
  apply (simp only: all_less_double all_less_one)
  apply (simp add: blend_value_def py_int_def fl_eval)
  done

lemma blend_value_white_1: "\<forall>m<32. blend_value (8 * m + 1) 255 = int (8 * m + 1)"
  apply (simp only: all_less_double all_less_one)
  apply (simp add: blend_value_def py_int_def fl_eval)
  done

lemma blend_value_white_2: "\<forall>m<32. blend_value (8 * m + 2) 255 = int (8 * m + 2)"
  apply (simp only: all_less_double all_less_one)
  apply (simp add: blend_value_def py_int_def fl_eval)
  done

lemma blend_value_white_3: "\<forall>m<32. blend_value (8 * m + 3) 255 = int (8 * m + 3)"
  apply (simp only: all_less_double all_less_one)
  apply (simp add: blend_value_def py_int_def fl_eval)
  done

lemma blend_value_white_4: "\<forall>m<32. blend_value (8 * m + 4) 255 = int (8 * m + 4)"
  apply (simp only: all_less_double all_less_one)
  apply (simp add: blend_value_def py_int_def fl_eval)
  done

lemma blend_value_white_5: "\<forall>m<32. blend_value (8 * m + 5) 255 = int (8 * m + 5)"
  apply (simp only: all_less_double all_less_one)
  apply (simp add: blend_value_def py_int_def fl_eval)
  done

lemma blend_value_white_6: "\<forall>m<32. blend_value (8 * m + 6) 255 = int (8 * m + 6)"
  apply (simp only: all_less_double all_less_one)
  apply (simp add: blend_value_def py_int_def fl_eval)
  done

lemma blend_value_white_7: "\<forall>m<32. blend_value (8 * m + 7) 255 = int (8 * m + 7)"
  apply (simp only: all_less_double all_less_one)
  apply (simp add: blend_value_def py_int_def fl_eval)
  done

lemma blend_value_white: "\<forall>a<256. blend_value a 255 = int a"
proof (intro allI impI)
  fix a :: nat assume a: "a < 256"
  define m where "m = a div 8"
  have m: "m < 32" and split: "a = 8 * m + a mod 8"
    using a by (simp_all add: m_def)
  consider "a mod 8 = 0" | "a mod 8 = 1" | "a mod 8 = 2" | "a mod 8 = 3"
    | "a mod 8 = 4" | "a mod 8 = 5" | "a mod 8 = 6" | "a mod 8 = 7"
    by linarith
  then have "blend_value (8 * m + a mod 8) 255 = int (8 * m + a mod 8)"
  proof cases
    case 1 with m blend_value_white_0 show ?thesis by simp
  next
    case 2 with m blend_value_white_1 show ?thesis by simp
  next
    case 3 with m blend_value_white_2 show ?thesis by simp
  next
    case 4 with m blend_value_white_3 show ?thesis by simp
  next
    case 5 with m blend_value_white_4 show ?thesis by simp
  next
    case 6 with m blend_value_white_5 show ?thesis by simp
  next
    case 7 with m blend_value_white_6 show ?thesis by simp
  next
    case 8 with m blend_value_white_7 show ?thesis by simp
  qed
  with split show "blend_value a 255 = int a" by simp
qed

lemma blend_channel_white:
  shows "blend_channel a 255 = a" "blend_channel 255 a = a"
proof -
  have "unat a < 256" using unsigned_less [of a] by simp
  then have v: "blend_value (unat a) 255 = int (unat a)"
    using blend_value_white by blast
  then show "blend_channel a 255 = a"
    by (simp add: blend_channel_def)
  have "blend_value 255 (unat a) = blend_value (unat a) 255"
    by (simp add: blend_value_def mult.commute)
  with v show "blend_channel 255 a = a"
    by (simp add: blend_channel_def)
qed

section \<open>Multiply blend\<close>

lemma blend_pixel_white: "blend_pixel p white = p" "blend_pixel white p = p"
  by (cases p; simp add: blend_pixel_def white_def blend_channel_white)+

lemma pure_white_new_image:
  assumes "wf_image im" "pure_white im"
  shows "im = new_image (size_w im) (size_h im) white"
proof -
  have "getpixel im x y = white" if "x < size_w im" "y < size_h im" for x y
  proof -
    from assms(1) that have "y < length (pixels im)" "x < length (pixels im ! y)"
      by (auto simp: wf_image_def list_all_length)
    with assms(2) show ?thesis
      by (simp add: pure_white_def getpixel_def list_all_length)
  qed
  then have "mk_image (size_w im) (size_h im) (getpixel im)
               = mk_image (size_w im) (size_h im) (\<lambda>x y. white)"
    by (intro mk_image_cong)
  with mk_image_getpixel [OF assms(1)] show ?thesis
    by (simp add: new_image_def)
qed

text \<open>
  C2.  Multiply-blending a well-formed image \<open>A\<close> with any pure-white image of the same
  size, in either operand order, returns \<open>A\<close>: every channel of every pixel is unchanged.
\<close>

theorem multiply_blend_white_identity:
  assumes "wf_image A" "wf_image Wh" "pure_white Wh"
    and "size_w Wh = size_w A" "size_h Wh = size_h A"
  shows "apply_multiply_blend A Wh = Inr A \<and> apply_multiply_blend Wh A = Inr A"
proof -
  let ?w = "size_w A" and ?h = "size_h A"
  have Wh: "Wh = new_image ?w ?h white"
    using pure_white_new_image [OF assms(2,3)] assms(4,5) by simp
  have 1: "mk_image ?w ?h
             (\<lambda>x y. blend_pixel
                (getpixel A (if ?w = 1 then 0 else x) (if ?h = 1 then 0 else y))
                (getpixel (new_image ?w ?h white) (if ?w = 1 then 0 else x) (if ?h = 1 then 0 else y)))
           = mk_image ?w ?h (getpixel A)"
    by (rule mk_image_cong) (auto simp: blend_pixel_white)
  have 2: "mk_image ?w ?h
             (\<lambda>x y. blend_pixel
                (getpixel (new_image ?w ?h white) (if ?w = 1 then 0 else x) (if ?h = 1 then 0 else y))
                (getpixel A (if ?w = 1 then 0 else x) (if ?h = 1 then 0 else y)))
           = mk_image ?w ?h (getpixel A)"
    by (rule mk_image_cong) (auto simp: blend_pixel_white)
  show ?thesis
    unfolding Wh
    by (simp only: apply_multiply_blend_def broadcast_dim_def size_new_image if_True
          option.simps 1 2 mk_image_getpixel [OF assms(1)] simp_thms)
qed

theorem multiply_blend_white_identity_witness:
  "wf_image sample_image \<and> wf_image (new_image 2 1 white) \<and> pure_white (new_image 2 1 white)
   \<and> size_w (new_image 2 1 white) = size_w sample_image
   \<and> size_h (new_image 2 1 white) = size_h sample_image
   \<and> apply_multiply_blend sample_image (new_image 2 1 white) = Inr sample_image
   \<and> apply_multiply_blend (new_image 2 1 white) sample_image = Inr sample_image"
proof -
  have h: "wf_image sample_image" "wf_image (new_image 2 1 white)"
    "pure_white (new_image 2 1 white)"
    "size_w (new_image 2 1 white) = size_w sample_image"
    "size_h (new_image 2 1 white) = size_h sample_image"
    by (simp_all add: wf_image_def sample_image_def pure_white_def new_image_def mk_image_def
          upt_rec)
  from multiply_blend_white_identity [OF h] h show ?thesis by simp
qed

section \<open>The linear solver meets its contract\<close>

lemma dot_Nil [simp]: "dot [] v = 0" "dot u [] = 0"
  by (simp_all add: dot_def)

lemma dot_Cons [simp]: "dot (a # u) (b # v) = a * b + dot u v"
  by (simp add: dot_def)

lemma dot_zero [simp]: "dot u (replicate n 0) = 0"
proof (induction u arbitrary: n)
  case Nil
  then show ?case by simp
next
  case (Cons a u)
  then show ?case by (cases n) simp_all
qed

lemma dot_eliminated:
  "length u = length w \<Longrightarrow> dot (map2 (\<lambda>a b. a - f * b) u w) v = dot u v - f * dot w v"
proof (induction u w arbitrary: v rule: list_induct2)
  case Nil
  then show ?case by simp
next
  case (Cons a u b w)
  then show ?case by (cases v) (simp_all add: algebra_simps)
qed


lemma select_pivot_set:
  "select_pivot p rs = (q, others) \<Longrightarrow>
     set (q # others) = set (p # rs) \<and> length others = length rs"
proof (induction rs arbitrary: p q others)
  case Nil
  then show ?case by simp
next
  case (Cons r rs)
  show ?case
  proof (cases "\<bar>hd (fst p)\<bar> < \<bar>hd (fst r)\<bar>")
    case True
    with Cons.prems obtain o' where sp: "select_pivot r rs = (q, o')" and o: "others = p # o'"
      by (auto split: prod.splits)
    from Cons.IH [OF sp] o show ?thesis by auto
  next
    case False
    with Cons.prems obtain o' where sp: "select_pivot p rs = (q, o')" and o: "others = r # o'"
      by (auto split: prod.splits)
    from Cons.IH [OF sp] o show ?thesis by auto
  qed
qed

lemma select_pivot_max:
  "select_pivot p rs = (q, others) \<Longrightarrow> e \<in> set (p # rs) \<Longrightarrow> \<bar>hd (fst e)\<bar> \<le> \<bar>hd (fst q)\<bar>"
proof (induction rs arbitrary: p q others e)
  case Nil
  then show ?case by simp
next
  case (Cons r rs)
  show ?case
  proof (cases "\<bar>hd (fst p)\<bar> < \<bar>hd (fst r)\<bar>")
    case True
    with Cons.prems obtain o' where sp: "select_pivot r rs = (q, o')"
      by (auto split: prod.splits)
    have ih: "\<bar>hd (fst e')\<bar> \<le> \<bar>hd (fst q)\<bar>" if "e' \<in> set (r # rs)" for e'
      using Cons.IH [OF sp that] .
    show ?thesis
    proof (cases "e = p")
      case True
      with \<open>\<bar>hd (fst p)\<bar> < \<bar>hd (fst r)\<bar>\<close> ih [of r] show ?thesis by simp
    next
      case False
      with Cons.prems(2) have "e \<in> set (r # rs)" by simp
      then show ?thesis by (rule ih)
    qed
  next
    case False
    with Cons.prems obtain o' where sp: "select_pivot p rs = (q, o')"
      by (auto split: prod.splits)
    have ih: "\<bar>hd (fst e')\<bar> \<le> \<bar>hd (fst q)\<bar>" if "e' \<in> set (p # rs)" for e'
      using Cons.IH [OF sp that] .
    show ?thesis
    proof (cases "e = r")
      case True
      with False ih [of p] show ?thesis by simp
    next
      case False
      with Cons.prems(2) have "e \<in> set (p # rs)" by auto
      then show ?thesis by (rule ih)
    qed
  qed
qed

text \<open>A system of \<open>n\<close> equations in \<open>n\<close> unknowns.\<close>

lemma gauss_step:
  assumes "length eqs = Suc n"
  obtains r rs p others where "eqs = r # rs" "select_pivot r rs = (p, others)"
    "set eqs = set (p # others)" "length others = n"
    "\<And>e. e \<in> set eqs \<Longrightarrow> \<bar>hd (fst e)\<bar> \<le> \<bar>hd (fst p)\<bar>"
    "gauss (Suc n) eqs =
       (if hd (fst p) = 0 then Inl LinAlgError
        else (case gauss n (map (eliminate p) others) of Inl e \<Rightarrow> Inl e
              | Inr xs \<Rightarrow> Inr ((snd p - dot (tl (fst p)) xs) / hd (fst p) # xs)))"
proof -
  from assms obtain r rs where eqs: "eqs = r # rs" and len: "length rs = n"
    by (cases eqs) auto
  obtain p others where sp: "select_pivot r rs = (p, others)"
    by (cases "select_pivot r rs")
  show thesis
  proof (rule that [OF eqs sp])
    show "set eqs = set (p # others)" "length others = n"
      using select_pivot_set [OF sp] eqs len by auto
    show "\<bar>hd (fst e)\<bar> \<le> \<bar>hd (fst p)\<bar>" if "e \<in> set eqs" for e
      using select_pivot_max [OF sp] that eqs by blast
    show "gauss (Suc n) eqs =
       (if hd (fst p) = 0 then Inl LinAlgError
        else (case gauss n (map (eliminate p) others) of Inl e \<Rightarrow> Inl e
              | Inr xs \<Rightarrow> Inr ((snd p - dot (tl (fst p)) xs) / hd (fst p) # xs)))"
      by (simp add: eqs sp)
  qed
qed

lemma eliminate_row:
  assumes "length (fst p) = Suc n" "length (fst r) = Suc n"
  shows "length (fst (eliminate p r)) = n"
    and "dot (fst (eliminate p r)) v
           = dot (tl (fst r)) v - hd (fst r) / hd (fst p) * dot (tl (fst p)) v"
    and "snd (eliminate p r) = snd r - hd (fst r) / hd (fst p) * snd p"
proof -
  have len: "length (tl (fst r)) = length (tl (fst p))"
    using assms by simp
  show "length (fst (eliminate p r)) = n"
    using assms by (simp add: eliminate_def Let_def)
  show "dot (fst (eliminate p r)) v
           = dot (tl (fst r)) v - hd (fst r) / hd (fst p) * dot (tl (fst p)) v"
    unfolding eliminate_def Let_def fst_conv by (rule dot_eliminated [OF len])
  show "snd (eliminate p r) = snd r - hd (fst r) / hd (fst p) * snd p"
    by (simp add: eliminate_def Let_def)
qed

lemma row_split:
  assumes "length c = Suc n"
  shows "dot c (x # xs) = hd c * x + dot (tl c) xs"
  using assms by (cases c) simp_all

lemma gauss_error: "gauss n eqs = Inl e \<Longrightarrow> e = LinAlgError"
proof (induction n arbitrary: eqs)
  case 0
  then show ?case by simp
next
  case (Suc n)
  then show ?case
    by (auto split: list.splits prod.splits if_splits sum.splits)
qed

lemma gauss_sound:
  assumes "length eqs = n" "\<forall>e \<in> set eqs. length (fst e) = n" "gauss n eqs = Inr x"
  shows "length x = n \<and> (\<forall>e \<in> set eqs. dot (fst e) x = snd e)"
  using assms
proof (induction n arbitrary: eqs x)
  case 0
  then show ?case by simp
next
  case (Suc n)
  obtain r rs p others where
    st: "set eqs = set (p # others)" "length others = n"
    and g: "gauss (Suc n) eqs =
       (if hd (fst p) = 0 then Inl LinAlgError
        else (case gauss n (map (eliminate p) others) of Inl e \<Rightarrow> Inl e
              | Inr xs \<Rightarrow> Inr ((snd p - dot (tl (fst p)) xs) / hd (fst p) # xs)))"
    by (rule gauss_step [OF Suc.prems(1)]) blast
  from g Suc.prems(3) obtain xs where
    nz: "hd (fst p) \<noteq> 0" and rec: "gauss n (map (eliminate p) others) = Inr xs"
    and x: "x = (snd p - dot (tl (fst p)) xs) / hd (fst p) # xs"
    by (auto split: if_splits sum.splits)
  have lp: "length (fst p) = Suc n" and lo: "\<And>r. r \<in> set others \<Longrightarrow> length (fst r) = Suc n"
    using Suc.prems(2) st by auto
  have ih: "length xs = n \<and> (\<forall>e \<in> set (map (eliminate p) others). dot (fst e) xs = snd e)"
  proof (rule Suc.IH [OF _ _ rec])
    show "length (map (eliminate p) others) = n" using st by simp
    show "\<forall>e\<in>set (map (eliminate p) others). length (fst e) = n"
      using eliminate_row(1) [OF lp lo] by auto
  qed
  have piv: "dot (fst p) x = snd p"
    using nz by (simp add: x row_split [OF lp])
  have oth: "dot (fst r) x = snd r" if r: "r \<in> set others" for r
  proof -
    have "dot (fst (eliminate p r)) xs = snd (eliminate p r)"
      using ih r by simp
    then have "dot (tl (fst r)) xs - hd (fst r) / hd (fst p) * dot (tl (fst p)) xs
                 = snd r - hd (fst r) / hd (fst p) * snd p"
      by (simp add: eliminate_row [OF lp lo [OF r]])
    then show ?thesis
      using nz by (simp add: x row_split [OF lo [OF r]] field_simps)
  qed
  show ?case
    using ih piv oth st by (auto simp: x)
qed

lemma gauss_kernel:
  assumes "length eqs = n" "\<forall>e \<in> set eqs. length (fst e) = n" "gauss n eqs = Inr x"
    and "length v = n" "\<forall>e \<in> set eqs. dot (fst e) v = 0"
  shows "v = replicate n 0"
  using assms
proof (induction n arbitrary: eqs x v)
  case 0
  then show ?case by simp
next
  case (Suc n)
  obtain r rs p others where
    st: "set eqs = set (p # others)" "length others = n"
    and g: "gauss (Suc n) eqs =
       (if hd (fst p) = 0 then Inl LinAlgError
        else (case gauss n (map (eliminate p) others) of Inl e \<Rightarrow> Inl e
              | Inr xs \<Rightarrow> Inr ((snd p - dot (tl (fst p)) xs) / hd (fst p) # xs)))"
    by (rule gauss_step [OF Suc.prems(1)]) blast
  from g Suc.prems(3) obtain xs where
    nz: "hd (fst p) \<noteq> 0" and rec: "gauss n (map (eliminate p) others) = Inr xs"
    by (auto split: if_splits sum.splits)
  have lp: "length (fst p) = Suc n" and lo: "\<And>r. r \<in> set others \<Longrightarrow> length (fst r) = Suc n"
    using Suc.prems(2) st by auto
  from Suc.prems(4) obtain v0 vs where v: "v = v0 # vs" and lvs: "length vs = n"
    by (cases v) auto
  have pv: "hd (fst p) * v0 + dot (tl (fst p)) vs = 0"
    using Suc.prems(5) st by (simp add: v row_split [OF lp, symmetric])
  have "vs = replicate n 0"
  proof (rule Suc.IH [OF _ _ rec lvs])
    show "length (map (eliminate p) others) = n" using st by simp
    show "\<forall>e\<in>set (map (eliminate p) others). length (fst e) = n"
      using eliminate_row(1) [OF lp lo] by auto
    show "\<forall>e\<in>set (map (eliminate p) others). dot (fst e) vs = 0"
    proof
      fix e assume "e \<in> set (map (eliminate p) others)"
      then obtain r where r: "r \<in> set others" and e: "e = eliminate p r" by auto
      have rv: "hd (fst r) * v0 + dot (tl (fst r)) vs = 0"
        using Suc.prems(5) st r by (simp add: v row_split [OF lo [OF r], symmetric])
      have "dot (tl (fst p)) vs = - hd (fst p) * v0" using pv by (simp add: algebra_simps)
      moreover have "dot (tl (fst r)) vs = - hd (fst r) * v0" using rv by (simp add: algebra_simps)
      ultimately show "dot (fst e) vs = 0"
        using nz by (simp add: e eliminate_row [OF lp lo [OF r]])
    qed
  qed
  with pv nz show ?case by (simp add: v)
qed

lemma gauss_complete:
  assumes "length eqs = n" "\<forall>e \<in> set eqs. length (fst e) = n"
    and "\<And>v. length v = n \<Longrightarrow> \<forall>e \<in> set eqs. dot (fst e) v = 0 \<Longrightarrow> v = replicate n 0"
  shows "\<exists>x. gauss n eqs = Inr x"
  using assms
proof (induction n arbitrary: eqs)
  case 0
  then show ?case by simp
next
  case (Suc n)
  obtain r rs p others where
    st: "set eqs = set (p # others)" "length others = n"
    and mx: "\<And>e. e \<in> set eqs \<Longrightarrow> \<bar>hd (fst e)\<bar> \<le> \<bar>hd (fst p)\<bar>"
    and g: "gauss (Suc n) eqs =
       (if hd (fst p) = 0 then Inl LinAlgError
        else (case gauss n (map (eliminate p) others) of Inl e \<Rightarrow> Inl e
              | Inr xs \<Rightarrow> Inr ((snd p - dot (tl (fst p)) xs) / hd (fst p) # xs)))"
    by (rule gauss_step [OF Suc.prems(1)]) blast
  have lp: "length (fst p) = Suc n" and lo: "\<And>r. r \<in> set others \<Longrightarrow> length (fst r) = Suc n"
    and le: "\<And>e. e \<in> set eqs \<Longrightarrow> length (fst e) = Suc n"
    using Suc.prems(2) st by auto
  have nz: "hd (fst p) \<noteq> 0"
  proof
    assume z: "hd (fst p) = 0"
    have "\<forall>e \<in> set eqs. dot (fst e) (1 # replicate n 0) = 0"
    proof
      fix e assume e: "e \<in> set eqs"
      with mx z have "hd (fst e) = 0" by fastforce
      then show "dot (fst e) (1 # replicate n 0) = 0"
        by (simp add: row_split [OF le [OF e]])
    qed
    then have "1 # replicate n 0 = replicate (Suc n) (0::rat)"
      by (intro Suc.prems(3)) simp_all
    then show False by simp
  qed
  have "\<exists>xs. gauss n (map (eliminate p) others) = Inr xs"
  proof (rule Suc.IH)
    show "length (map (eliminate p) others) = n" using st by simp
    show "\<forall>e\<in>set (map (eliminate p) others). length (fst e) = n"
      using eliminate_row(1) [OF lp lo] by auto
    fix vs :: "rat list"
    assume lvs: "length vs = n"
      and ker: "\<forall>e\<in>set (map (eliminate p) others). dot (fst e) vs = 0"
    define v0 where "v0 = - dot (tl (fst p)) vs / hd (fst p)"
    have "\<forall>e \<in> set eqs. dot (fst e) (v0 # vs) = 0"
    proof
      fix e assume e: "e \<in> set eqs"
      show "dot (fst e) (v0 # vs) = 0"
      proof (cases "e = p")
        case True
        then show ?thesis using nz by (simp add: row_split [OF lp] v0_def)
      next
        case False
        with e st have r: "e \<in> set others" by auto
        with ker have "dot (fst (eliminate p e)) vs = 0" by simp
        then have "dot (tl (fst e)) vs = hd (fst e) / hd (fst p) * dot (tl (fst p)) vs"
          by (simp add: eliminate_row [OF lp lo [OF r]])
        then show ?thesis
          using nz by (simp add: row_split [OF lo [OF r]] v0_def)
      qed
    qed
    then have "v0 # vs = replicate (Suc n) 0"
      by (intro Suc.prems(3)) (simp_all add: lvs)
    then show "vs = replicate n 0" by simp
  qed
  with g nz show ?case by auto
qed

lemma zip_rows:
  "length b = length a \<Longrightarrow> (\<forall>e \<in> set (zip a b). P (fst e)) \<longleftrightarrow> (\<forall>r \<in> set a. P r)"
proof -
  assume "length b = length a"
  then have "set a = fst ` set (zip a b)"
    by (metis map_fst_zip set_map)
  then show ?thesis by auto
qed

lemma linalg_solve_gauss:
  "list_all (\<lambda>r. length r = length a) a \<Longrightarrow> length b = length a \<Longrightarrow>
     linalg_solve a b = gauss (length a) (zip a b)"
  by (simp add: linalg_solve_def)

lemma zip_wf:
  assumes "list_all (\<lambda>r. length r = length a) a" "length b = length a"
  shows "length (zip a b) = length a" "\<forall>e \<in> set (zip a b). length (fst e) = length a"
  using assms zip_rows [of b a "\<lambda>r. length r = length a"] by (simp_all add: list_all_iff)

lemma linalg_solve_singular:
  assumes sq: "list_all (\<lambda>r. length r = length a) a" "length b = length a"
    and sing: "singular a"
  shows "linalg_solve a b = Inl LinAlgError"
proof (cases "gauss (length a) (zip a b)")
  case (Inl e)
  then show ?thesis
    using gauss_error [OF Inl] by (simp add: linalg_solve_gauss [OF sq])
next
  case (Inr x)
  from sing obtain v where v: "length v = length a" "v \<noteq> replicate (length a) 0"
    "\<forall>r \<in> set a. dot r v = 0"
    by (auto simp: singular_def)
  have "\<forall>e \<in> set (zip a b). dot (fst e) v = 0"
    using v(3) zip_rows [OF sq(2), of "\<lambda>r. dot r v = 0"] by simp
  from gauss_kernel [OF zip_wf [OF sq] Inr v(1) this] v(2) show ?thesis by simp
qed

lemma linalg_solve_regular:
  assumes sq: "list_all (\<lambda>r. length r = length a) a" "length b = length a"
    and reg: "\<not> singular a"
  shows "\<exists>x. linalg_solve a b = Inr x \<and> length x = length a \<and> list_all2 (\<lambda>r t. dot r x = t) a b"
proof -
  have "\<exists>x. gauss (length a) (zip a b) = Inr x"
  proof (rule gauss_complete [OF zip_wf [OF sq]])
    fix v :: "rat list"
    assume "length v = length a" "\<forall>e\<in>set (zip a b). dot (fst e) v = 0"
    with reg zip_rows [OF sq(2), of "\<lambda>r. dot r v = 0"] show "v = replicate (length a) 0"
      by (auto simp: singular_def)
  qed
  then obtain x where x: "gauss (length a) (zip a b) = Inr x" ..
  from gauss_sound [OF zip_wf [OF sq] x]
  have "length x = length a" "\<forall>e\<in>set (zip a b). dot (fst e) x = snd e" by simp_all
  then have "list_all2 (\<lambda>r t. dot r x = t) a b"
    using sq(2) by (auto simp: list_all2_iff)
  with x \<open>length x = length a\<close> show ?thesis
    by (simp add: linalg_solve_gauss [OF sq])
qed


section \<open>The system of a rectangle's corners\<close>

lemma length_8:
  assumes "length (d :: 'a list) = 8"
  obtains d0 d1 d2 d3 d4 d5 d6 d7 where "d = [d0, d1, d2, d3, d4, d5, d6, d7]"
proof -
  from assms have "d = [d ! 0, d ! 1, d ! 2, d ! 3, d ! 4, d ! 5, d ! 6, d ! 7]"
    by (intro nth_equalityI) (auto simp: nth_Cons' less_Suc_eq numeral_eq_Suc)
  then show thesis by (rule that)
qed

lemma upt_4: "[0..<4] = [0, 1, 2, 3]"
  by (simp add: upt_rec)

lemma rect_matrix:
  "map (map of_int)
     (perspective_matrix [0, 0, w, 0, w, h, 0, h] [X0, Y0, X1, Y1, X2, Y2, X3, Y3])
   = [[0, 0, 1, 0, 0, 0, 0, 0],
      [0, 0, 0, 0, 0, 1, 0, 0],
      [of_int w, 0, 1, 0, 0, 0, - (of_int X1 * of_int w), 0],
      [0, 0, 0, of_int w, 0, 1, - (of_int Y1 * of_int w), 0],
      [of_int w, of_int h, 1, 0, 0, 0, - (of_int X2 * of_int w), - (of_int X2 * of_int h)],
      [0, 0, 0, of_int w, of_int h, 1, - (of_int Y2 * of_int w), - (of_int Y2 * of_int h)],
      [0, of_int h, 1, 0, 0, 0, 0, - (of_int X3 * of_int h)],
      [0, 0, 0, 0, of_int h, 1, 0, - (of_int Y3 * of_int h):: rat]]"
  by (simp add: perspective_matrix_def coeff_rows_def upt_4)

lemma rect_core_regular:
  fixes W H X1 Y1 X2 Y2 X3 Y3 :: rat
  assumes W: "W \<noteq> 0" and H: "H \<noteq> 0"
    and D: "(X2 - X1) * (Y3 - Y1) - (X3 - X1) * (Y2 - Y1) \<noteq> 0"
    and ker: "\<forall>r \<in> set
      [[0, 0, 1, 0, 0, 0, 0, 0],
       [0, 0, 0, 0, 0, 1, 0, 0],
       [W, 0, 1, 0, 0, 0, - (X1 * W), 0],
       [0, 0, 0, W, 0, 1, - (Y1 * W), 0],
       [W, H, 1, 0, 0, 0, - (X2 * W), - (X2 * H)],
       [0, 0, 0, W, H, 1, - (Y2 * W), - (Y2 * H)],
       [0, H, 1, 0, 0, 0, 0, - (X3 * H)],
       [0, 0, 0, 0, H, 1, 0, - (Y3 * H)]]. dot r [a, b, c, d, e, f, g, k] = 0"
  shows "[a, b, c, d, e, f, g, k] = replicate 8 0"
proof -
  from ker have c: "c = 0" and f: "f = 0" by simp_all
  from ker c have "W * a - X1 * W * g = 0" by simp
  with W have a: "a = X1 * g" by (simp add: algebra_simps)
  from ker f have "W * d - Y1 * W * g = 0" by simp
  with W have d: "d = Y1 * g" by (simp add: algebra_simps)
  from ker c have "H * b - X3 * H * k = 0" by simp
  with H have b: "b = X3 * k" by (simp add: algebra_simps)
  from ker f have "H * e - Y3 * H * k = 0" by simp
  with H have e: "e = Y3 * k" by (simp add: algebra_simps)
  from ker c have "W * a + H * b - X2 * W * g - X2 * H * k = 0" by simp
  then have E5: "(W * g) * (X1 - X2) + (H * k) * (X3 - X2) = 0"
    by (simp add: a b algebra_simps)
  from ker f have "W * d + H * e - Y2 * W * g - Y2 * H * k = 0" by simp
  then have E6: "(W * g) * (Y1 - Y2) + (H * k) * (Y3 - Y2) = 0"
    by (simp add: d e algebra_simps)
  let ?D = "(X2 - X1) * (Y3 - Y1) - (X3 - X1) * (Y2 - Y1)"
  have "(W * g) * ?D
          = ((W * g) * (Y1 - Y2) + (H * k) * (Y3 - Y2)) * (X3 - X2)
          - ((W * g) * (X1 - X2) + (H * k) * (X3 - X2)) * (Y3 - Y2)"
    by (simp add: algebra_simps)
  with E5 E6 D W have g: "g = 0" by simp
  have "(H * k) * ?D
          = ((W * g) * (X1 - X2) + (H * k) * (X3 - X2)) * (Y1 - Y2)
          - ((W * g) * (Y1 - Y2) + (H * k) * (Y3 - Y2)) * (X1 - X2)"
    by (simp add: algebra_simps)
  with E5 E6 D H have k: "k = 0" by simp
  show ?thesis
    by (simp add: a b c d e f g k numeral_eq_Suc)
qed

lemma rect_core_singular:
  fixes W H X1 Y1 X2 Y2 X3 Y3 :: rat
  assumes "W = 0 \<or> H = 0 \<or> (X2 - X1) * (Y3 - Y1) - (X3 - X1) * (Y2 - Y1) = 0"
  shows "\<exists>g k. (g \<noteq> 0 \<or> k \<noteq> 0) \<and> (\<forall>r \<in> set
      [[0, 0, 1, 0, 0, 0, 0, 0],
       [0, 0, 0, 0, 0, 1, 0, 0],
       [W, 0, 1, 0, 0, 0, - (X1 * W), 0],
       [0, 0, 0, W, 0, 1, - (Y1 * W), 0],
       [W, H, 1, 0, 0, 0, - (X2 * W), - (X2 * H)],
       [0, 0, 0, W, H, 1, - (Y2 * W), - (Y2 * H)],
       [0, H, 1, 0, 0, 0, 0, - (X3 * H)],
       [0, 0, 0, 0, H, 1, 0, - (Y3 * H)]]. dot r [X1 * g, X3 * k, 0, Y1 * g, Y3 * k, 0, g, k] = 0)"
proof -
  have red: "(\<forall>r \<in> set
      [[0, 0, 1, 0, 0, 0, 0, 0],
       [0, 0, 0, 0, 0, 1, 0, 0],
       [W, 0, 1, 0, 0, 0, - (X1 * W), 0],
       [0, 0, 0, W, 0, 1, - (Y1 * W), 0],
       [W, H, 1, 0, 0, 0, - (X2 * W), - (X2 * H)],
       [0, 0, 0, W, H, 1, - (Y2 * W), - (Y2 * H)],
       [0, H, 1, 0, 0, 0, 0, - (X3 * H)],
       [0, 0, 0, 0, H, 1, 0, - (Y3 * H)]]. dot r [X1 * g, X3 * k, 0, Y1 * g, Y3 * k, 0, g, k] = 0)
    \<longleftrightarrow> (W * g) * (X1 - X2) + (H * k) * (X3 - X2) = 0
       \<and> (W * g) * (Y1 - Y2) + (H * k) * (Y3 - Y2) = 0" for g k
    by (simp add: algebra_simps)
  consider (w) "W = 0" | (h) "H = 0" | (q0) "W \<noteq> 0" "H \<noteq> 0" "X3 = X2" "Y3 = Y2"
    | (qx) "W \<noteq> 0" "H \<noteq> 0" "X3 \<noteq> X2"
        "(X2 - X1) * (Y3 - Y1) - (X3 - X1) * (Y2 - Y1) = 0"
    | (qy) "W \<noteq> 0" "H \<noteq> 0" "Y3 \<noteq> Y2"
        "(X2 - X1) * (Y3 - Y1) - (X3 - X1) * (Y2 - Y1) = 0"
    using assms by fastforce
  then show ?thesis
  proof cases
    case w
    then show ?thesis unfolding red by - (rule exI [of _ 1], rule exI [of _ 0], simp)
  next
    case h
    then show ?thesis unfolding red by - (rule exI [of _ 0], rule exI [of _ 1], simp)
  next
    case q0
    then show ?thesis unfolding red by - (rule exI [of _ 0], rule exI [of _ "1"], simp)
  next
    case qx
    have "(X3 - X2) * (Y1 - Y2) - (X1 - X2) * (Y3 - Y2)
            = (X2 - X1) * (Y3 - Y1) - (X3 - X1) * (Y2 - Y1)"
      by (simp add: algebra_simps)
    with qx have z: "(X3 - X2) * (Y1 - Y2) - (X1 - X2) * (Y3 - Y2) = 0" by simp
    have gu: "W * ((X3 - X2) / W) = X3 - X2" "H * (- (X1 - X2) / H) = - (X1 - X2)"
      using qx by simp_all
    show ?thesis unfolding red
    proof (rule exI [of _ "(X3 - X2) / W"], rule exI [of _ "- (X1 - X2) / H"], intro conjI)
      show "(X3 - X2) / W \<noteq> 0 \<or> - (X1 - X2) / H \<noteq> 0" using qx by simp
      show "W * ((X3 - X2) / W) * (X1 - X2) + H * (- (X1 - X2) / H) * (X3 - X2) = 0"
        unfolding gu by (simp add: algebra_simps)
      show "W * ((X3 - X2) / W) * (Y1 - Y2) + H * (- (X1 - X2) / H) * (Y3 - Y2) = 0"
        unfolding gu using z by (simp add: algebra_simps)
    qed
  next
    case qy
    have "(X1 - X2) * (Y3 - Y2) - (X3 - X2) * (Y1 - Y2)
            = - ((X2 - X1) * (Y3 - Y1) - (X3 - X1) * (Y2 - Y1))"
      by (simp add: algebra_simps)
    with qy have z: "(X1 - X2) * (Y3 - Y2) - (X3 - X2) * (Y1 - Y2) = 0" by simp
    have gu: "W * ((Y3 - Y2) / W) = Y3 - Y2" "H * (- (Y1 - Y2) / H) = - (Y1 - Y2)"
      using qy by simp_all
    show ?thesis unfolding red
    proof (rule exI [of _ "(Y3 - Y2) / W"], rule exI [of _ "- (Y1 - Y2) / H"], intro conjI)
      show "(Y3 - Y2) / W \<noteq> 0 \<or> - (Y1 - Y2) / H \<noteq> 0" using qy by simp
      show "W * ((Y3 - Y2) / W) * (X1 - X2) + H * (- (Y1 - Y2) / H) * (X3 - X2) = 0"
        unfolding gu using z by (simp add: algebra_simps)
      show "W * ((Y3 - Y2) / W) * (Y1 - Y2) + H * (- (Y1 - Y2) / H) * (Y3 - Y2) = 0"
        unfolding gu by (simp add: algebra_simps)
    qed
  qed
qed

lemma rect_singular_iff:
  "singular (map (map of_int)
      (perspective_matrix [0, 0, w, 0, w, h, 0, h] [X0, Y0, X1, Y1, X2, Y2, X3, Y3]))
   \<longleftrightarrow> w = 0 \<or> h = 0 \<or> collinear (X1, Y1) (X2, Y2) (X3, Y3)"
  (is "singular ?M \<longleftrightarrow> ?deg")
proof -
  let ?D = "(of_int X2 - of_int X1) * (of_int Y3 - of_int Y1)
              - (of_int X3 - of_int X1) * (of_int Y2 - of_int Y1) :: rat"
  have D: "?D = 0 \<longleftrightarrow> collinear (X1, Y1) (X2, Y2) (X3, Y3)"
  proof -
    have "?D = of_int ((X2 - X1) * (Y3 - Y1) - (X3 - X1) * (Y2 - Y1))" by simp
    then show ?thesis unfolding collinear_def fst_conv snd_conv
      by (metis of_int_eq_0_iff)
  qed
  have len: "length ?M = 8" by (simp add: rect_matrix)
  show ?thesis
  proof
    assume "singular ?M"
    then obtain v where v: "length v = 8" "v \<noteq> replicate 8 0" "\<forall>r \<in> set ?M. dot r v = 0"
      unfolding singular_def len by blast
    from v(1) obtain a b c d e f g k where vv: "v = [a, b, c, d, e, f, g, k]"
      by (rule length_8)
    show ?deg
    proof (rule ccontr)
      assume "\<not> ?deg"
      then have "of_int w \<noteq> (0::rat)" "of_int h \<noteq> (0::rat)" "?D \<noteq> 0"
        using D by simp_all
      from rect_core_regular [OF this v(3) [unfolded rect_matrix vv]] v(2) vv
      show False by simp
    qed
  next
    assume ?deg
    then have "of_int w = (0::rat) \<or> of_int h = (0::rat) \<or> ?D = 0"
      using D by simp
    from rect_core_singular [OF this] obtain g k where
      gk: "g \<noteq> 0 \<or> k \<noteq> 0"
      and ker: "\<forall>r \<in> set ?M.
        dot r [of_int X1 * g, of_int X3 * k, 0, of_int Y1 * g, of_int Y3 * k, 0, g, k] = 0"
      unfolding rect_matrix by blast
    let ?v = "[of_int X1 * g, of_int X3 * k, 0, of_int Y1 * g, of_int Y3 * k, 0, g, k]"
    have "length ?v = length ?M" unfolding len by simp
    moreover have "?v \<noteq> replicate (length ?M) 0"
      using gk unfolding len by (auto simp: numeral_eq_Suc)
    ultimately show "singular ?M"
      using ker unfolding singular_def by blast
  qed
qed

lemma rect_square:
  "list_all (\<lambda>r. length r = length (map (map rat_of_int)
       (perspective_matrix [0, 0, w, 0, w, h, 0, h] [X0, Y0, X1, Y1, X2, Y2, X3, Y3])))
     (map (map rat_of_int)
       (perspective_matrix [0, 0, w, 0, w, h, 0, h] [X0, Y0, X1, Y1, X2, Y2, X3, Y3]))"
  by (simp add: rect_matrix)

lemma corners_8:
  "corner [X0, Y0, X1, Y1, X2, Y2, X3, Y3] 0 = (X0, Y0)"
  "corner [X0, Y0, X1, Y1, X2, Y2, X3, Y3] 1 = (X1, Y1)"
  "corner [X0, Y0, X1, Y1, X2, Y2, X3, Y3] 2 = (X2, Y2)"
  "corner [X0, Y0, X1, Y1, X2, Y2, X3, Y3] 3 = (X3, Y3)"
  by (simp_all add: corner_def)

text \<open>
  With the exact solver, the coefficients of a rectangle's corners exist exactly when
  the rectangle has a non-zero size and the destinations of its top-right,
  bottom-right and bottom-left corners are not collinear.
\<close>

lemma find_coeffs_rect_singular:
  assumes "solve B = linalg_solve" "length dest = 8"
    and "w = 0 \<or> h = 0 \<or> collinear (corner dest 1) (corner dest 2) (corner dest 3)"
  shows "find_perspective_coeffs B [0, 0, w, 0, w, h, 0, h] dest = Inl LinAlgError"
proof -
  from assms(2) obtain X0 Y0 X1 Y1 X2 Y2 X3 Y3 where
    d: "dest = [X0, Y0, X1, Y1, X2, Y2, X3, Y3]" by (rule length_8)
  from assms(3) have "singular (map (map of_int)
      (perspective_matrix [0, 0, w, 0, w, h, 0, h] [X0, Y0, X1, Y1, X2, Y2, X3, Y3]))"
    unfolding d corners_8 rect_singular_iff .
  from linalg_solve_singular [OF rect_square _ this, of "map of_int dest"]
  show ?thesis
    by (simp add: find_perspective_coeffs_def assms(1) d rect_matrix)
qed

lemma find_coeffs_rect_regular:
  assumes "solve B = linalg_solve" "length dest = 8"
    and "w \<noteq> 0" "h \<noteq> 0" "\<not> collinear (corner dest 1) (corner dest 2) (corner dest 3)"
  shows "\<exists>c. find_perspective_coeffs B [0, 0, w, 0, w, h, 0, h] dest = Inr c \<and> length c = 8
           \<and> list_all2 (\<lambda>r t. dot r c = t)
                (map (map of_int) (perspective_matrix [0, 0, w, 0, w, h, 0, h] dest))
                (map of_int dest)"
proof -
  from assms(2) obtain X0 Y0 X1 Y1 X2 Y2 X3 Y3 where
    d: "dest = [X0, Y0, X1, Y1, X2, Y2, X3, Y3]" by (rule length_8)
  let ?M = "map (map rat_of_int)
      (perspective_matrix [0, 0, w, 0, w, h, 0, h] [X0, Y0, X1, Y1, X2, Y2, X3, Y3])"
  have len: "length ?M = 8" by (simp add: rect_matrix)
  from assms(3-5) have "\<not> singular ?M"
    unfolding d corners_8 rect_singular_iff by simp
  from linalg_solve_regular [OF rect_square _ this, of "map of_int dest"]
  obtain c where c: "linalg_solve ?M (map of_int dest) = Inr c" "length c = length ?M"
    "list_all2 (\<lambda>r t. dot r c = t) ?M (map of_int dest)"
    unfolding len by (auto simp: assms(2))
  have "find_perspective_coeffs B [0, 0, w, 0, w, h, 0, h] dest = Inr c"
    using c(1) by (simp add: find_perspective_coeffs_def assms(1) d)
  with c(2,3) len show ?thesis
    unfolding d by simp
qed

section \<open>The identity correspondences\<close>



section \<open>Bounds on rounding\<close>

lemma pow2_pos [simp]: "0 < pow2 n"
  by (simp add: pow2_def)

lemma pow2_add: "pow2 (a + b) = pow2 a * pow2 b"
proof -
  have "pow2 n = power_int 2 n" for n
    by (simp add: pow2_def power_int_def field_simps)
  then show ?thesis by (simp add: power_int_add)
qed

lemma pow2_52: "pow2 e = 2 ^ 52 * pow2 (e - 52)"
  using pow2_add [of 52 "e - 52"] by (simp add: pow2_def)

lemma ilog2_bounds:
  assumes "0 < x"
  shows "pow2 (ilog2 x) \<le> x \<and> x < 2 * pow2 (ilog2 x)"
proof (cases "1 \<le> x")
  case True
  define n where "n = \<lfloor>x\<rfloor>"
  have n: "1 \<le> n" "of_int n \<le> x" "x < of_int n + 1"
    using True floor_correct [of x] by (simp_all add: n_def le_floor_iff)
  from bitlen_bounds [of n] n(1)
  have b: "2 ^ nat (bitlen n - 1) \<le> n" "n < 2 ^ nat (bitlen n)" by simp_all
  have b1: "1 \<le> bitlen n"
    using n(1) bitlen_eq_zero_iff [of n] bitlen_nonneg [of n] by linarith
  then have "nat (bitlen n) = Suc (nat (bitlen n - 1))" by linarith
  then have two: "(2::int) ^ nat (bitlen n) = 2 * 2 ^ nat (bitlen n - 1)"
    by simp
  have e: "pow2 (ilog2 x) = 2 ^ nat (bitlen n - 1)"
    using True b1 by (simp add: ilog2_def n_def pow2_def)
  have "rat_of_int (2 ^ nat (bitlen n - 1)) \<le> rat_of_int n"
    using b(1) by (simp only: of_int_le_iff)
  then have p1: "(2::rat) ^ nat (bitlen n - 1) \<le> of_int n" by simp
  have "n + 1 \<le> 2 * 2 ^ nat (bitlen n - 1)"
    using b(2) two by simp
  then have "rat_of_int (n + 1) \<le> rat_of_int (2 * 2 ^ nat (bitlen n - 1))"
    by (simp only: of_int_le_iff)
  then have p2: "of_int n + 1 \<le> 2 * (2::rat) ^ nat (bitlen n - 1)" by simp
  show ?thesis
    unfolding e using n(2,3) p1 p2 by linarith
next
  case False
  define N where "N = \<lceil>1 / x\<rceil>"
  define k where "k = bitlen (N - 1)"
  have inv: "1 < 1 / x" using False assms by simp
  have N: "1 / x \<le> of_int N" "of_int N - 1 < 1 / x" "2 \<le> N"
    using inv ceiling_correct [of "1 / x"] by (simp_all add: N_def less_ceiling_iff)
  from bitlen_bounds [of "N - 1"] N(3)
  have b: "2 ^ nat (k - 1) \<le> N - 1" "N - 1 < 2 ^ nat k" by (simp_all add: k_def)
  have k1: "1 \<le> k"
    using N(3) bitlen_eq_zero_iff [of "N - 1"] bitlen_nonneg [of "N - 1"]
    unfolding k_def by linarith
  then have "nat k = Suc (nat (k - 1))" by linarith
  then have two: "(2::rat) ^ nat k = 2 * 2 ^ nat (k - 1)"
    by simp
  have e: "pow2 (ilog2 x) = 1 / 2 ^ nat k"
    using False k1 by (simp add: ilog2_def pow2_def N_def k_def)
  have "N \<le> 2 ^ nat k" using b(2) by simp
  then have "rat_of_int N \<le> rat_of_int (2 ^ nat k)"
    by (simp only: of_int_le_iff)
  then have "rat_of_int N \<le> 2 ^ nat k" by simp
  then have up: "1 / x \<le> 2 ^ nat k" using N(1) by linarith
  have "rat_of_int (2 ^ nat (k - 1)) \<le> rat_of_int (N - 1)"
    using b(1) by (simp only: of_int_le_iff)
  then have "(2::rat) ^ nat (k - 1) \<le> of_int N - 1" by simp
  then have lo: "2 ^ nat (k - 1) < 1 / x" using N(2) by linarith
  have "1 / 2 ^ nat k \<le> x"
    using up assms by (simp add: field_simps)
  moreover have "x < 2 * (1 / 2 ^ nat k)"
    using lo assms unfolding two by (simp add: field_simps)
  ultimately show ?thesis unfolding e by simp
qed

lemma round_half_even_ge: "\<lfloor>q\<rfloor> \<le> round_half_even q"
  by (simp add: round_half_even_def Let_def)

lemma fl_lower:
  assumes "0 < x"
  shows "pow2 (ilog2 x) \<le> fl x"
proof -
  define s where "s = ilog2 x - 52"
  define q where "q = x / pow2 s"
  have "2 ^ 52 * pow2 s \<le> x"
    using ilog2_bounds [OF assms] pow2_52 [of "ilog2 x"] by (simp add: s_def)
  then have "2 ^ 52 \<le> q"
    by (simp add: q_def field_simps)
  then have "(2::int) ^ 52 \<le> \<lfloor>q\<rfloor>"
    by (simp add: le_floor_iff)
  with round_half_even_ge [of q] have "(2::int) ^ 52 \<le> round_half_even q" by linarith
  then have "(2::rat) ^ 52 \<le> of_int (round_half_even q)"
    by (metis of_int_le_iff of_int_numeral of_int_power)
  then have "2 ^ 52 * pow2 s \<le> of_int (round_half_even q) * pow2 s"
    by (simp add: mult_right_mono less_imp_le)
  moreover have "fl x = of_int (round_half_even q) * pow2 s"
    using assms by (simp add: fl_def Let_def s_def q_def)
  ultimately show ?thesis
    using pow2_52 [of "ilog2 x"] by (simp add: s_def)
qed

lemma fl_gt_half: "0 < x \<Longrightarrow> x / 2 < fl x"
  using ilog2_bounds [of x] fl_lower [of x] by simp

section \<open>\<^verbatim>\<open>resize_cover\<close>\<close>

lemma crop_size:
  "crop im l t r b = Inr out \<Longrightarrow>
     size_w out = nat (r - l) \<and> size_h out = nat (b - t) \<and> wf_image out"
  by (auto simp: crop_def split: if_splits)

text \<open>Whenever \<^verbatim>\<open>resize_cover\<close> returns, the result has exactly the target size.\<close>

lemma resize_cover_size:
  assumes "resize_cover B img target_w target_h = Inr out"
  shows "size_w out = nat target_w \<and> size_h out = nat target_h \<and> wf_image out"
proof -
  from assms obtain im l t where "crop im l t (l + target_w) (t + target_h) = Inr out"
    by (auto simp: resize_cover_def Let_def split: sum.splits)
  from crop_size [OF this] show ?thesis by simp
qed

lemma scaled_size_pos:
  assumes "0 < ow" "0 < tw" "fl (of_int tw / of_int ow) \<le> scale" "8 \<le> tw"
  shows "1 \<le> py_int (py_int_mul_float ow scale)"
proof -
  have q: "0 < rat_of_int tw / of_int ow" using assms by simp
  have 1: "rat_of_int tw / of_int ow / 2 < scale"
    using fl_gt_half [OF q] assms(3) by linarith
  have 2: "rat_of_int ow / 2 < fl (of_int ow)"
    using fl_gt_half [of "of_int ow"] assms(1) by simp
  have "rat_of_int ow / 2 * (rat_of_int tw / of_int ow / 2) < fl (of_int ow) * scale"
    using 1 2 assms(1,2) by (intro mult_strict_mono) simp_all
  moreover have "rat_of_int ow / 2 * (rat_of_int tw / of_int ow / 2) = of_int tw / 4"
    using assms(1) by simp
  ultimately have 3: "rat_of_int tw / 4 < fl (of_int ow) * scale" by simp
  then have pos: "0 < fl (of_int ow) * scale" using assms(2)
    by (smt (verit) divide_pos_pos of_int_0_less_iff order_less_trans zero_less_numeral)
  have "rat_of_int tw / 8 < fl (fl (of_int ow) * scale)"
    using fl_gt_half [OF pos] 3 by linarith
  moreover have "1 \<le> rat_of_int tw / 8" using assms(4) by simp
  ultimately have "1 \<le> fl (fl (of_int ow) * scale)" by linarith
  then show ?thesis
    by (simp add: py_int_def py_int_mul_float_def le_floor_iff)
qed

lemma resize_cover_ok:
  assumes "0 < size_w img" "0 < size_h img" "8 \<le> target_w" "8 \<le> target_h"
  shows "\<exists>out. resize_cover B img target_w target_h = Inr out"
proof -
  let ?ow = "int (size_w img)" and ?oh = "int (size_h img)"
  let ?sw = "fl (of_int target_w / of_int ?ow)" and ?sh = "fl (of_int target_h / of_int ?oh)"
  let ?scale = "max ?sw ?sh"
  have w: "1 \<le> py_int (py_int_mul_float ?ow ?scale)"
    using assms by (intro scaled_size_pos [where tw = target_w]) simp_all
  have h: "1 \<le> py_int (py_int_mul_float ?oh ?scale)"
    using assms by (intro scaled_size_pos [where tw = target_h]) simp_all
  show ?thesis
    using assms w h
    by (simp add: resize_cover_def py_truediv_def Let_def resize_def crop_def)
qed

text \<open>
  C3 fails on the code: for a 49 by 49 image and the target 1 by 1, \<open>1 / 49\<close> rounds
  down, \<open>49 * (1 / 49)\<close> rounds to the float just below 1, \<^verbatim>\<open>int\<close> truncates it to 0, and
  PIL refuses to resize to 0 by 0: \<^verbatim>\<open>resize_cover\<close> raises ValueError instead of
  returning a 1 by 1 image.
\<close>

theorem resize_cover_49_raises:
  "resize_cover B (new_image 49 49 white) 1 1 = Inl ValueError"
  by (simp add: resize_cover_def py_truediv_def py_int_mul_float_def py_int_def resize_def
        fl_eval)

section \<open>The bordered canvas\<close>

lemma size_paste [simp]:
  "size_w (paste canvas im x0 y0) = size_w canvas"
  "size_h (paste canvas im x0 y0) = size_h canvas"
  by (simp_all add: paste_def)

lemma getpixel_paste:
  "x < size_w canvas \<Longrightarrow> y < size_h canvas \<Longrightarrow>
     getpixel (paste canvas im x0 y0) x y =
       (if x0 \<le> int x \<and> int x < x0 + int (size_w im) \<and> y0 \<le> int y \<and> int y < y0 + int (size_h im)
        then getpixel im (nat (int x - x0)) (nat (int y - y0))
        else getpixel canvas x y)"
  by (simp add: paste_def)

text \<open>For an input of positive size the resize cannot fail, and both files are saved.\<close>

lemma create_bordered_image_run:
  assumes "0 < size_w fg_img" "0 < size_h fg_img"
  obtains art where "resize_cover B fg_img 3567 5374 = Inr art"
    and "create_bordered_image B fg_img input_folder fs
        = Inr (fs(path_join input_folder ''output.png'' \<mapsto> ImageFile art,
                  path_join input_folder ''print.png'' \<mapsto> ImageFile
                    (paste (paste (new_image 3900 5700 white)
                          (new_image 3660 5460 fluorescent_green)
                          ((3900 - 3660) div 2) ((5700 - 5460) div 2))
                       art ((3900 - 3567) div 2) ((5700 - 5374) div 2))))"
proof -
  from resize_cover_ok [OF assms, of 3567 5374 B]
  obtain art where art: "resize_cover B fg_img 3567 5374 = Inr art" by auto
  have "create_bordered_image B fg_img input_folder fs
        = Inr (fs(path_join input_folder ''output.png'' \<mapsto> ImageFile art,
                  path_join input_folder ''print.png'' \<mapsto> ImageFile
                    (paste (paste (new_image 3900 5700 white)
                          (new_image 3660 5460 fluorescent_green)
                          ((3900 - 3660) div 2) ((5700 - 5460) div 2))
                       art ((3900 - 3567) div 2) ((5700 - 5374) div 2))))"
    by (simp add: create_bordered_image_def art image_save_def)
  with art show thesis by (rule that)
qed

text \<open>
  C4.  For every input image of positive size, \<^verbatim>\<open>create_bordered_image\<close> saves a
  centered artwork of exactly 3567 by 5374 pixels (the result of \<^verbatim>\<open>resize_cover\<close>) and a
  bordered canvas of exactly 3900 by 5700 pixels; the green box and the artwork are
  pasted at the offsets \<open>(canvas_dim - box_dim) div 2\<close> on each axis, so the artwork
  occupies the canvas from \<open>(166, 163)\<close>.
\<close>

theorem bordered_canvas_sizes:
  assumes "0 < size_w fg_img" "0 < size_h fg_img"
  shows "\<exists>art canvas.
      resize_cover B fg_img 3567 5374 = Inr art
    \<and> create_bordered_image B fg_img input_folder fs
        = Inr (fs(path_join input_folder ''output.png'' \<mapsto> ImageFile art,
                  path_join input_folder ''print.png'' \<mapsto> ImageFile canvas))
    \<and> size_w canvas = 3900 \<and> size_h canvas = 5700
    \<and> size_w art = 3567 \<and> size_h art = 5374
    \<and> canvas = paste (paste (new_image 3900 5700 white)
                          (new_image 3660 5460 fluorescent_green)
                          ((3900 - 3660) div 2) ((5700 - 5460) div 2))
                   art ((3900 - 3567) div 2) ((5700 - 5374) div 2)
    \<and> (\<forall>x<3567. \<forall>y<5374. getpixel canvas (x + 166) (y + 163) = getpixel art x y)"
proof -
  define canvas_of where "canvas_of art = paste (paste (new_image 3900 5700 white)
                          (new_image 3660 5460 fluorescent_green)
                          ((3900 - 3660) div 2) ((5700 - 5460) div 2))
                   art ((3900 - 3567) div 2) ((5700 - 5374) div 2)" for art
  from assms obtain art where art: "resize_cover B fg_img 3567 5374 = Inr art"
    and run: "create_bordered_image B fg_img input_folder fs
        = Inr (fs(path_join input_folder ''output.png'' \<mapsto> ImageFile art,
                  path_join input_folder ''print.png'' \<mapsto> ImageFile (canvas_of art)))"
    unfolding canvas_of_def by (rule create_bordered_image_run)
  from resize_cover_size [OF art]
  have sz: "size_w art = 3567" "size_h art = 5374" by simp_all
  have csz: "size_w (canvas_of art) = 3900" "size_h (canvas_of art) = 5700"
    by (simp_all add: canvas_of_def)
  have px: "getpixel (canvas_of art) (x + 166) (y + 163) = getpixel art x y"
    if "x < 3567" "y < 5374" for x y
    using that unfolding canvas_of_def by (subst getpixel_paste) (simp_all add: sz)
  show ?thesis
    using art run csz sz px canvas_of_def by blast
qed

theorem bordered_canvas_sizes_witness:
  "0 < size_w sample_image \<and> 0 < size_h sample_image \<and>
   (\<exists>art canvas.
      resize_cover exact_backend sample_image 3567 5374 = Inr art
    \<and> create_bordered_image exact_backend sample_image ''out'' Map.empty
        = Inr (Map.empty(path_join ''out'' ''output.png'' \<mapsto> ImageFile art,
                  path_join ''out'' ''print.png'' \<mapsto> ImageFile canvas))
    \<and> size_w canvas = 3900 \<and> size_h canvas = 5700
    \<and> size_w art = 3567 \<and> size_h art = 5374
    \<and> canvas = paste (paste (new_image 3900 5700 white)
                          (new_image 3660 5460 fluorescent_green)
                          ((3900 - 3660) div 2) ((5700 - 5460) div 2))
                   art ((3900 - 3567) div 2) ((5700 - 5374) div 2)
    \<and> (\<forall>x<3567. \<forall>y<5374. getpixel canvas (x + 166) (y + 163) = getpixel art x y))"
proof -
  have p: "0 < size_w sample_image" "0 < size_h sample_image"
    by (simp_all add: sample_image_def)
  from bordered_canvas_sizes [OF p, of exact_backend "''out''" Map.empty] p
  show ?thesis by blast
qed

section \<open>The composite\<close>

lemma blend_same_size:
  "apply_multiply_blend base (mk_image (size_w base) (size_h base) f)
     = Inr (mk_image (size_w base) (size_h base) (\<lambda>x y. blend_pixel (getpixel base x y) (f x y)))"
proof -
  have "mk_image (size_w base) (size_h base)
          (\<lambda>x y. blend_pixel
             (getpixel base (if size_w base = 1 then 0 else x) (if size_h base = 1 then 0 else y))
             (getpixel (mk_image (size_w base) (size_h base) f)
                (if size_w base = 1 then 0 else x) (if size_h base = 1 then 0 else y)))
      = mk_image (size_w base) (size_h base) (\<lambda>x y. blend_pixel (getpixel base x y) (f x y))"
    by (rule mk_image_cong) auto
  then show ?thesis
    by (simp only: apply_multiply_blend_def broadcast_dim_def size_mk_image if_True
          option.simps simp_thms)
qed

lemma warp_result:
  "apply_perspective_transform B img tw th d = Inr (Some p) \<Longrightarrow> \<exists>g. p = mk_image tw th g"
  by (auto simp: apply_perspective_transform_def Let_def split: sum.splits if_splits)

text \<open>
  C10.  The paste of the warped foreground onto the fresh white canvas of the template's
  size is a no-op: \<^verbatim>\<open>create_multiplied_image\<close> computes, for every input, exactly what it
  computes with the canvas removed and the warped foreground blended directly.
\<close>

theorem white_canvas_paste_is_noop:
  "create_multiplied_image B fg_img show_image_path output_path dest_corners resize_flag fs
     = create_multiplied_image_direct B fg_img show_image_path output_path dest_corners
         resize_flag fs"
proof -
  have step: "paste (new_image w h white) p 0 0 = p"
    if "apply_perspective_transform B im w h dest_corners = Inr (Some p)" for im w h p
    using warp_result [OF that] by (auto simp: paste_same_size)
  show ?thesis
    unfolding create_multiplied_image_def create_multiplied_image_direct_def Let_def
    by (auto split: sum.splits option.splits simp: step)
qed

text \<open>
  What \<^verbatim>\<open>create_multiplied_image\<close> does once the template loads: the outcome is decided
  by the solve for the corners of the resized foreground.
\<close>

lemma create_multiplied_image_run:
  assumes "image_open fs show_image_path = Inr base_img"
    and "w = (if resize_flag then 393 else 1071)" "h = (if resize_flag then 654 else 1500)"
  shows "create_multiplied_image B fg_img show_image_path output_path dest_corners resize_flag fs =
     (case find_perspective_coeffs B [0, 0, int w, 0, int w, int h, 0, int h] dest_corners of
        Inl e \<Rightarrow> (if e = LinAlgError then (Inr False, fs) else (Inl e, fs))
      | Inr coeffs \<Rightarrow>
          (Inr True, fs(output_path \<mapsto> ImageFile
             (mk_image (size_w base_img) (size_h base_img)
                (\<lambda>x y. blend_pixel (getpixel base_img x y)
                   (bicubic B (mk_image w h (lanczos B fg_img w h)) coeffs x y))))))"
proof (cases resize_flag)
  case True
  with assms show ?thesis
    by (simp add: create_multiplied_image_def resize_def Let_def
          apply_perspective_transform_def paste_same_size blend_same_size image_save_def
          split: sum.splits)
next
  case False
  with assms show ?thesis
    by (simp add: create_multiplied_image_def resize_def Let_def
          apply_perspective_transform_def paste_same_size blend_same_size image_save_def
          split: sum.splits)
qed

text \<open>
  C5.  Whenever \<^verbatim>\<open>create_multiplied_image\<close> succeeds, the template was loaded and the
  composite saved at the output path has exactly the template's width and height.
\<close>

theorem composite_has_template_size:
  assumes "create_multiplied_image B fg_img show_image_path output_path dest_corners
             resize_flag fs = (Inr True, fs')"
  shows "\<exists>base_img final_image.
           image_open fs show_image_path = Inr base_img
         \<and> fs' = fs(output_path \<mapsto> ImageFile final_image)
         \<and> size_w final_image = size_w base_img
         \<and> size_h final_image = size_h base_img"
proof -
  from assms obtain base_img where base: "image_open fs show_image_path = Inr base_img"
    by (auto simp: create_multiplied_image_def split: sum.splits if_splits)
  define w :: nat where "w = (if resize_flag then 393 else 1071)"
  define h :: nat where "h = (if resize_flag then 654 else 1500)"
  from assms create_multiplied_image_run [where fs = fs and show_image_path = show_image_path
      and B = B and fg_img = fg_img and output_path = output_path
      and dest_corners = dest_corners, OF base w_def h_def]
  obtain coeffs where fs': "fs' = fs(output_path \<mapsto> ImageFile
             (mk_image (size_w base_img) (size_h base_img)
                (\<lambda>x y. blend_pixel (getpixel base_img x y)
                   (bicubic B (mk_image w h (lanczos B fg_img w h)) coeffs x y))))"
    by (auto split: sum.splits if_splits)
  define final_image where "final_image = mk_image (size_w base_img) (size_h base_img)
                (\<lambda>x y. blend_pixel (getpixel base_img x y)
                   (bicubic B (mk_image w h (lanczos B fg_img w h)) coeffs x y))"
  have "fs' = fs(output_path \<mapsto> ImageFile final_image)"
    "size_w final_image = size_w base_img" "size_h final_image = size_h base_img"
    by (simp_all add: fs' final_image_def)
  with base show ?thesis by blast
qed

lemma create_multiplied_image_exact:
  assumes "solve B = linalg_solve" "length dest_corners = 8"
    and "image_open fs show_image_path = Inr base_img"
  shows "collinear (corner dest_corners 1) (corner dest_corners 2) (corner dest_corners 3) \<Longrightarrow>
           create_multiplied_image B fg_img show_image_path output_path dest_corners
             resize_flag fs = (Inr False, fs)"
    and "\<not> collinear (corner dest_corners 1) (corner dest_corners 2) (corner dest_corners 3) \<Longrightarrow>
           fst (create_multiplied_image B fg_img show_image_path output_path dest_corners
             resize_flag fs) = Inr True"
proof -
  define w :: nat where "w = (if resize_flag then 393 else 1071)"
  define h :: nat where "h = (if resize_flag then 654 else 1500)"
  have pos: "int w \<noteq> 0" "int h \<noteq> 0" by (simp_all add: w_def h_def)
  note run = create_multiplied_image_run [where fs = fs and show_image_path = show_image_path
      and B = B and fg_img = fg_img and output_path = output_path
      and dest_corners = dest_corners, OF assms(3) w_def h_def]
  show "create_multiplied_image B fg_img show_image_path output_path dest_corners
             resize_flag fs = (Inr False, fs)"
    if "collinear (corner dest_corners 1) (corner dest_corners 2) (corner dest_corners 3)"
    using find_coeffs_rect_singular [OF assms(1,2), of "int w" "int h"] that
    by (simp add: run)
  show "fst (create_multiplied_image B fg_img show_image_path output_path dest_corners
             resize_flag fs) = Inr True"
    if "\<not> collinear (corner dest_corners 1) (corner dest_corners 2) (corner dest_corners 3)"
    using find_coeffs_rect_regular [OF assms(1,2) pos that]
    by (auto simp: run)
qed

lemma dest_coordinates_regular:
  "length DEST_COORDINATES = 8"
  "\<not> collinear (corner DEST_COORDINATES 1) (corner DEST_COORDINATES 2) (corner DEST_COORDINATES 3)"
  "length DEST_COORDINATES2 = 8"
  "\<not> collinear (corner DEST_COORDINATES2 1) (corner DEST_COORDINATES2 2) (corner DEST_COORDINATES2 3)"
  "length DEST_COORDINATES3 = 8"
  "\<not> collinear (corner DEST_COORDINATES3 1) (corner DEST_COORDINATES3 2) (corner DEST_COORDINATES3 3)"
  by (simp_all add: DEST_COORDINATES_def DEST_COORDINATES2_def DEST_COORDINATES3_def
        corner_def collinear_def)

lemma solve_exact_backend: "solve exact_backend = linalg_solve"
  by (simp add: exact_backend_def)

theorem composite_has_template_size_witness:
  "create_multiplied_image exact_backend sample_image ''show.png'' ''out.png''
       DEST_COORDINATES False one_template
     = (Inr True, snd (create_multiplied_image exact_backend sample_image ''show.png''
                         ''out.png'' DEST_COORDINATES False one_template))
   \<and> (\<exists>base_img final_image.
           image_open one_template ''show.png'' = Inr base_img
         \<and> snd (create_multiplied_image exact_backend sample_image ''show.png''
                   ''out.png'' DEST_COORDINATES False one_template)
             = one_template(''out.png'' \<mapsto> ImageFile final_image)
         \<and> size_w final_image = size_w base_img
         \<and> size_h final_image = size_h base_img)"
proof -
  have t: "image_open one_template ''show.png'' = Inr (new_image 1 1 white)"
    by (simp add: image_open_def one_template_def)
  have "fst (create_multiplied_image exact_backend sample_image ''show.png'' ''out.png''
               DEST_COORDINATES False one_template) = Inr True"
    by (rule create_multiplied_image_exact(2)
          [OF solve_exact_backend dest_coordinates_regular(1) t dest_coordinates_regular(2)])
  then have run: "create_multiplied_image exact_backend sample_image ''show.png'' ''out.png''
       DEST_COORDINATES False one_template
     = (Inr True, snd (create_multiplied_image exact_backend sample_image ''show.png''
                         ''out.png'' DEST_COORDINATES False one_template))"
    by (metis prod.collapse)
  from composite_has_template_size [OF run] run show ?thesis by blast
qed

section \<open>Degenerate destination corners\<close>




section \<open>Paths\<close>






section \<open>What each step writes\<close>

lemma image_open_update:
  "p \<noteq> q \<Longrightarrow> image_open (fs(p \<mapsto> x)) q = image_open fs q"
  "image_open (fs(p \<mapsto> ImageFile im)) p = Inr im"
  by (simp_all add: image_open_def)







section \<open>Missing templates\<close>

text \<open>
  C8.  When at least one of the three template files does not exist, \<^verbatim>\<open>process_image\<close>
  returns failure with the message naming the first missing template path, and leaves
  the file system as it was: nothing is written, and the result does not depend on the
  input path (the input image is not opened).
\<close>

theorem missing_template_fails_first:
  assumes "fs (path_join script_dir ''show.png'') = None
         \<or> fs (path_join script_dir ''show2.jpg'') = None
         \<or> fs (path_join script_dir ''show3.png'') = None"
  shows "process_image B input_path output_folder script_dir fs
           = (Inr (False, [], ''Missing template file: '' @
                (if fs (path_join script_dir ''show.png'') = None
                   then path_join script_dir ''show.png''
                 else if fs (path_join script_dir ''show2.jpg'') = None
                   then path_join script_dir ''show2.jpg''
                 else path_join script_dir ''show3.png'')), fs)"
  using assms by (auto simp: process_image_def Let_def)

theorem missing_template_fails_first_witness:
  "(first_template_only (path_join ''tpl'' ''show.png'') = None
     \<or> first_template_only (path_join ''tpl'' ''show2.jpg'') = None
     \<or> first_template_only (path_join ''tpl'' ''show3.png'') = None)
   \<and> process_image exact_backend ''in.png'' ''out'' ''tpl'' first_template_only
       = (Inr (False, [], ''Missing template file: tpl/show2.jpg''), first_template_only)"
proof -
  have h: "first_template_only (path_join ''tpl'' ''show.png'') = None
     \<or> first_template_only (path_join ''tpl'' ''show2.jpg'') = None
     \<or> first_template_only (path_join ''tpl'' ''show3.png'') = None"
    by (simp add: path_join_def first_template_only_def)
  have pj: "path_join ''tpl'' ''show.png'' = ''tpl/show.png''"
    "path_join ''tpl'' ''show2.jpg'' = ''tpl/show2.jpg''"
    by (simp_all add: path_join_def)
  have l: "first_template_only ''tpl/show.png'' \<noteq> None"
    "first_template_only ''tpl/show2.jpg'' = None"
    by (simp_all add: first_template_only_def)
  from missing_template_fails_first [OF h, of exact_backend "''in.png''" "''out''"] h
  show ?thesis by (simp add: pj l)
qed

section \<open>The templates are not written\<close>



section \<open>Partial success\<close>













section \<open>A template overwritten\<close>




end
